theory Spec2Isabelle
  imports Complex_Main "HOL-Library.Word"
begin

section \<open>Webcomic Archiver: a shallow embedding of comic-scraper.js\<close>

text \<open>
  The userscript walks a webcomic page by page. On every page it composites the comic
  image with caption blocks, caches the encoded page in session storage, and either
  navigates to the next page or zips the cached pages into a .cbz archive.

  The embedding follows the source function by function. Everything the script does
  to its surroundings is explicit: session storage is a map, console output, storage
  writes, navigation and the download are events appended to a trace, an exception is
  a value, and a promise that never settles is the result \<open>Pending\<close>.
\<close>

subsection \<open>JavaScript values\<close>

datatype error =
    TypeError | SyntaxError | RangeError | QuotaExceededError | InvalidCharacterError
  | InvalidStateError

text \<open>
  The result of an awaited step: it returns, it throws, or its promise never settles
  (an image that never loads, an exception inside a callback that nothing awaits).
\<close>

datatype 'a res = Ret 'a | Throw error | Pending

text \<open>
  JavaScript numbers are IEEE 754 doubles. An integer is a double when it has at most
  53 significant bits; the result of an integer operation is rounded to the nearest
  such value, a tie going to the one whose last kept bit is 0. \<open>dropBits m\<close> is the
  number of low bits of \<open>m\<close> that do not fit (9007199254740992 is 2^53),
  \<open>roundMagnitude\<close> rounds a magnitude and \<open>roundDouble\<close> an integer. Subtracting 1 from a double never leaves the range
  of doubles, so no infinity arises from the rounding.
\<close>

function dropBits :: "int \<Rightarrow> nat" where
  "dropBits m = (if m < 9007199254740992 then 0 else Suc (dropBits (m div 2)))"
  by pat_completeness auto
termination
  by (relation "measure nat") auto

declare dropBits.simps [simp del]

definition roundMagnitude :: "int \<Rightarrow> int" where
  "roundMagnitude m =
     (let q = 2 ^ dropBits m; t = m div q; r = m mod q
      in if 2 * r < q \<or> (2 * r = q \<and> even t) then t * q else (t + 1) * q)"

definition roundDouble :: "int \<Rightarrow> int" where
  "roundDouble x = (if x < 0 then - roundMagnitude (- x) else roundMagnitude x)"

text \<open>
  The page budget \<open>pageCount\<close>. \<open>parseInt\<close> gives an integer-valued double, an
  infinity (for a digit string beyond the range of doubles) or NaN; a property read
  back from JSON is a number, \<open>null\<close> (what \<open>JSON.stringify\<close> writes for NaN and the
  infinities) or, when the property is missing, \<open>undefined\<close>.
\<close>

datatype jsnum = Number int | PosInfinity | NegInfinity | NaN | Null | Undefined

text \<open>\<open>pageCount <= 1\<close>: \<open>null\<close> converts to 0, \<open>undefined\<close> to NaN, and NaN compares false.\<close>

fun le1 :: "jsnum \<Rightarrow> bool" where
  "le1 (Number n) = (n \<le> 1)"
| "le1 PosInfinity = False"
| "le1 NegInfinity = True"
| "le1 NaN = False"
| "le1 Null = True"
| "le1 Undefined = False"

text \<open>\<open>pageCount - 1\<close>, a subtraction of doubles.\<close>

fun minus1 :: "jsnum \<Rightarrow> jsnum" where
  "minus1 (Number n) = Number (roundDouble (n - 1))"
| "minus1 PosInfinity = PosInfinity"
| "minus1 NegInfinity = NegInfinity"
| "minus1 NaN = NaN"
| "minus1 Null = Number (- 1)"
| "minus1 Undefined = NaN"

text \<open>
  A property value after \<open>JSON.stringify\<close> and \<open>JSON.parse\<close>: NaN and the infinities
  are written as \<open>null\<close>.
\<close>

fun json :: "jsnum \<Rightarrow> jsnum" where
  "json NaN = Null"
| "json PosInfinity = Null"
| "json NegInfinity = Null"
| "json v = v"

function show_nat :: "nat \<Rightarrow> string" where
  "show_nat n =
     (if n < 10 then [''0123456789'' ! n]
      else show_nat (n div 10) @ [''0123456789'' ! (n mod 10)])"
  by pat_completeness auto
termination
  by (relation "measure id") auto

declare show_nat.simps [simp del]

definition show_int :: "int \<Rightarrow> string" where
  "show_int i = (if i < 0 then ''-'' @ show_nat (nat (- i)) else show_nat (nat i))"

text \<open>
  A number inside a template string. Integers are written in decimal, which is what
  JavaScript prints for magnitudes below 10^21.
\<close>

fun show_jsnum :: "jsnum \<Rightarrow> string" where
  "show_jsnum (Number n) = show_int n"
| "show_jsnum PosInfinity = ''Infinity''"
| "show_jsnum NegInfinity = ''-Infinity''"
| "show_jsnum NaN = ''NaN''"
| "show_jsnum Null = ''null''"
| "show_jsnum Undefined = ''undefined''"

text \<open>\<open>s.split(c)\<close> for a one-character separator: the empty string splits into \<open>['''']\<close>.\<close>

fun split_on :: "char \<Rightarrow> string \<Rightarrow> string list" where
  "split_on c [] = [[]]"
| "split_on c (x # xs) =
     (if x = c then [] # split_on c xs
      else (case split_on c xs of h # t \<Rightarrow> (x # h) # t | [] \<Rightarrow> [[x]]))"

subsection \<open>Text blocks and adapter configurations (lines 34-143)\<close>

text \<open>
  The parameter object that \<open>createWrappedTextCanvas\<close> destructures. \<open>text\<close> is a
  string or \<open>null\<close> (\<open>None\<close>); sizes are whole pixels, as the source's comment
  requires; \<open>fontWeight\<close> is kept as the text that the font shorthand shows.
\<close>

record textParams =
  text' :: "string option"
  paddingTop :: int
  paddingBottom :: int
  paddingLeft :: int
  paddingRight :: int
  textAlign :: string
  fontStyle :: string
  fontVariant :: string
  fontWeight :: string
  fontStretch :: string
  fontSize :: int
  lineHeight :: int
  fontFamily :: string
  textFillStyle :: string

definition defaultTextParams :: textParams where
  "defaultTextParams =
     \<lparr>text' = Some '''', paddingTop = 5, paddingBottom = 5, paddingLeft = 5, paddingRight = 5,
      textAlign = ''center'', fontStyle = '''', fontVariant = '''', fontWeight = '''',
      fontStretch = '''', fontSize = 18, lineHeight = 20, fontFamily = ''Arial'',
      textFillStyle = ''#000000''\<rparr>"

text \<open>
  A text block as \<open>topText()\<close> or \<open>bottomText()\<close> returns it: an object literal, that is
  a list of the properties it sets. A \<open>text\<close> read from the page can be a string,
  \<open>null\<close> (a missing attribute) or \<open>undefined\<close>.
\<close>

datatype jstext = TStr string | TNull | TUndefined

datatype blockProp =
    Text jstext
  | PaddingTop int
  | PaddingBottom int
  | PaddingLeft int
  | PaddingRight int
  | TextAlign string
  | FontStyle string
  | FontVariant string
  | FontWeight string
  | FontStretch string
  | FontSize int
  | LineHeight int
  | FontFamily string
  | FillStyle string

type_synonym textBlock = "blockProp list"

text \<open>
  \<open>_.defaults(it, defaultTextParams)\<close> fills every property of the block that resolves
  to \<open>undefined\<close> from the defaults and keeps every other one, \<open>null\<close> included. A
  property written twice in a literal keeps its last value.
\<close>

fun setProp :: "blockProp \<Rightarrow> textParams \<Rightarrow> textParams" where
  "setProp (Text (TStr s)) p = p\<lparr>text' := Some s\<rparr>"
| "setProp (Text TNull) p = p\<lparr>text' := None\<rparr>"
| "setProp (Text TUndefined) p = p\<lparr>text' := text' defaultTextParams\<rparr>"
| "setProp (PaddingTop n) p = p\<lparr>paddingTop := n\<rparr>"
| "setProp (PaddingBottom n) p = p\<lparr>paddingBottom := n\<rparr>"
| "setProp (PaddingLeft n) p = p\<lparr>paddingLeft := n\<rparr>"
| "setProp (PaddingRight n) p = p\<lparr>paddingRight := n\<rparr>"
| "setProp (TextAlign s) p = p\<lparr>textAlign := s\<rparr>"
| "setProp (FontStyle s) p = p\<lparr>fontStyle := s\<rparr>"
| "setProp (FontVariant s) p = p\<lparr>fontVariant := s\<rparr>"
| "setProp (FontWeight s) p = p\<lparr>fontWeight := s\<rparr>"
| "setProp (FontStretch s) p = p\<lparr>fontStretch := s\<rparr>"
| "setProp (FontSize n) p = p\<lparr>fontSize := n\<rparr>"
| "setProp (LineHeight n) p = p\<lparr>lineHeight := n\<rparr>"
| "setProp (FontFamily s) p = p\<lparr>fontFamily := s\<rparr>"
| "setProp (FillStyle s) p = p\<lparr>textFillStyle := s\<rparr>"

definition defaultsText :: "textBlock \<Rightarrow> textParams" where
  "defaultsText it = fold setProp it defaultTextParams"

text \<open>\<open>if (top.text)\<close>: \<open>null\<close> and the empty string are falsy.\<close>

fun truthy :: "string option \<Rightarrow> bool" where
  "truthy None = False"
| "truthy (Some s) = (s \<noteq> [])"

text \<open>
  An adapter configuration. Its hooks read the page, of type \<open>'d\<close>, and may throw.
  \<open>url\<close> is the regular expression, as the predicate \<open>it.url.exec(url)\<close> being
  truthy. \<open>bookName\<close> receives \<open>firstPage\<close> and \<open>lastPage\<close>, each \<open>undefined\<close>
  (\<open>None\<close>) when no page was found. A missing optional property is \<open>None\<close>.
\<close>

record 'd config =
  name :: string
  url :: "string \<Rightarrow> bool"
  bookName :: "string option \<Rightarrow> string option \<Rightarrow> error + string"
  pageNumber :: "'d \<Rightarrow> error + string"
  nextPageURL :: "'d \<Rightarrow> error + string option"
  imageURL :: "'d \<Rightarrow> error + string"
  pageLoaded :: "('d \<Rightarrow> bool) option"
  fillStyle :: "string option"
  topText :: "('d \<Rightarrow> error + textBlock list) option"
  bottomText :: "('d \<Rightarrow> error + textBlock list) option"

text \<open>
  \<open>_.defaults(config, defaultConfig)\<close> with \<open>defaultConfig = {pageLoaded: () => true,
  topText: () => [], bottomText: () => []}\<close>. lodash assigns into its first argument
  and returns it.
\<close>

definition defaultsConfig :: "'d config \<Rightarrow> 'd config" where
  "defaultsConfig c =
     c\<lparr>pageLoaded := (case pageLoaded c of None \<Rightarrow> Some (\<lambda>d. True) | Some f \<Rightarrow> Some f),
       topText := (case topText c of None \<Rightarrow> Some (\<lambda>d. Inr []) | Some f \<Rightarrow> Some f),
       bottomText := (case bottomText c of None \<Rightarrow> Some (\<lambda>d. Inr []) | Some f \<Rightarrow> Some f)\<rparr>"

subsection \<open>Base64 (lines 145-166)\<close>

record blob =
  bytes :: "8 word list"
  mime :: string

definition b64_alphabet :: string where
  "b64_alphabet = ''ABCDEFGHIJKLMNOPQRSTUVWXYZabcdefghijklmnopqrstuvwxyz0123456789+/''"

definition b64_char :: "nat \<Rightarrow> char" where
  "b64_char n = b64_alphabet ! n"

fun index_of :: "'a \<Rightarrow> 'a list \<Rightarrow> nat option" where
  "index_of c [] = None"
| "index_of c (x # xs) = (if x = c then Some 0 else map_option Suc (index_of c xs))"

definition b64_index :: "char \<Rightarrow> nat option" where
  "b64_index c = index_of c b64_alphabet"

text \<open>
  The browser's encoder behind \<open>FileReader.readAsDataURL\<close> (RFC 4648, section 4):
  every three bytes give four six-bit values; a final group of one or two bytes is
  filled with zero bits and the output padded with \<open>=\<close> to a multiple of four.
\<close>

fun sextets :: "8 word list \<Rightarrow> nat list" where
  "sextets (a # b # c # r) =
     [unat a div 4, unat a mod 4 * 16 + unat b div 16,
      unat b mod 16 * 4 + unat c div 64, unat c mod 64] @ sextets r"
| "sextets [a, b] = [unat a div 4, unat a mod 4 * 16 + unat b div 16, unat b mod 16 * 4]"
| "sextets [a] = [unat a div 4, unat a mod 4 * 16]"
| "sextets [] = []"

definition b64_encode :: "8 word list \<Rightarrow> string" where
  "b64_encode bs =
     map b64_char (sextets bs) @ replicate ((3 - length bs mod 3) mod 3) (CHR ''='')"

definition readAsDataURL :: "blob \<Rightarrow> string" where
  "readAsDataURL b = ''data:'' @ mime b @ '';base64,'' @ b64_encode (bytes b)"

text \<open>
  \<open>blobToBase64\<close>: \<open>reader.result.split(',')[1]\<close>, which is \<open>undefined\<close> (\<open>None\<close>) when
  the data URL has no comma.
\<close>

definition blobToBase64 :: "blob \<Rightarrow> string option" where
  "blobToBase64 b =
     (case split_on (CHR '','') (readAsDataURL b) of
        x # y # r \<Rightarrow> Some y
      | _ \<Rightarrow> None)"

text \<open>
  The browser's \<open>atob\<close> (the forgiving-base64 decode of the HTML standard): ASCII
  whitespace is dropped; if the length is then a multiple of four, one or two final
  \<open>=\<close> are dropped; a length of 1 modulo 4 or a character outside the alphabet is an
  InvalidCharacterError; every four characters give three bytes, and two or three
  remaining characters give one or two bytes, the surplus bits being discarded. The
  result is a binary string, here the list of its character codes.
\<close>

definition ascii_whitespace :: "char \<Rightarrow> bool" where
  "ascii_whitespace c = (c \<in> {CHR 0x09, CHR 0x0A, CHR 0x0C, CHR 0x0D, CHR 0x20})"

definition strip_padding :: "string \<Rightarrow> string" where
  "strip_padding d =
     (case rev d of
        x # y # r \<Rightarrow>
          if x = CHR ''='' then (if y = CHR ''='' then rev r else rev (y # r)) else d
      | [x] \<Rightarrow> if x = CHR ''='' then [] else d
      | [] \<Rightarrow> d)"

fun b64_bytes :: "nat list \<Rightarrow> nat list" where
  "b64_bytes (s1 # s2 # s3 # s4 # r) =
     [s1 * 4 + s2 div 16, s2 mod 16 * 16 + s3 div 4, s3 mod 4 * 64 + s4] @ b64_bytes r"
| "b64_bytes [s1, s2, s3] = [s1 * 4 + s2 div 16, s2 mod 16 * 16 + s3 div 4]"
| "b64_bytes [s1, s2] = [s1 * 4 + s2 div 16]"
| "b64_bytes [s1] = []"
| "b64_bytes [] = []"

definition atob :: "string \<Rightarrow> error + nat list" where
  "atob data =
     (let d1 = filter (\<lambda>c. \<not> ascii_whitespace c) data;
          d2 = (if length d1 mod 4 = 0 then strip_padding d1 else d1)
      in if length d2 mod 4 = 1 then Inl InvalidCharacterError
         else (case those (map b64_index d2) of
                 None \<Rightarrow> Inl InvalidCharacterError
               | Some sx \<Rightarrow> Inr (b64_bytes sx)))"

text \<open>
  The loop of \<open>base64ToBlob\<close>: for \<open>i = 0, 512, ...\<close> below the length, the slice
  \<open>byteCharacters.slice(i, i + 512)\<close> becomes a \<open>Uint8Array\<close> of its character codes
  (each stored modulo 256).
\<close>

function byteArrays :: "nat \<Rightarrow> nat list \<Rightarrow> 8 word list list" where
  "byteArrays i byteCharacters =
     (if i < length byteCharacters
      then map of_nat (take 512 (drop i byteCharacters)) # byteArrays (i + 512) byteCharacters
      else [])"
  by pat_completeness auto
termination
  by (relation "measure (\<lambda>(i, cs). length cs - i)") auto

declare byteArrays.simps [simp del]

text \<open>\<open>new Blob(byteArrays, {type})\<close> concatenates the arrays.\<close>

definition base64ToBlob :: "string \<Rightarrow> string \<Rightarrow> error + blob" where
  "base64ToBlob base64 type =
     (case atob base64 of
        Inl er \<Rightarrow> Inl er
      | Inr byteCharacters \<Rightarrow> Inr \<lparr>bytes = concat (byteArrays 0 byteCharacters), mime = type\<rparr>)"


subsection \<open>Canvases\<close>

text \<open>
  A canvas is its size and the drawing calls made on it, oldest first; the 2D
  context's own rendering is not part of the script.

  The \<open>width\<close> and \<open>height\<close> of a canvas element are \<open>unsigned long\<close> attributes
  that reflect a non-negative content attribute: an assigned integer is reduced modulo
  2^32 and, when the result is above 2^31 - 1, replaced by the default (300 for the
  width, 150 for the height). So a negative height reads back as 150. The script reads
  the sizes back from the element wherever it uses them.

  \<open>drawImage\<close> with a canvas as its source throws an InvalidStateError when that
  canvas has a width or a height of 0.
\<close>

record image =
  imageSrc :: string
  imageWidth :: int
  imageHeight :: int

datatype canvas = Canvas (canvasWidth: int) (canvasHeight: int) (calls: "drawCall list")
  and drawCall =
    FillRect string int int int int
      \<comment> \<open>\<open>fillStyle\<close>, then \<open>fillRect(x, y, w, h)\<close>\<close>
  | FillText string string string string real int
      \<comment> \<open>\<open>font\<close>, \<open>fillStyle\<close>, \<open>textAlign\<close>, then \<open>fillText(line, x, y)\<close>\<close>
  | DrawImage image int int
      \<comment> \<open>\<open>drawImage(image, dx, dy)\<close>\<close>
  | DrawCanvas canvas int int int int int int int int
      \<comment> \<open>\<open>drawImage(canvas, sx, sy, sw, sh, dx, dy, dw, dh)\<close>\<close>

definition reflectSize :: "int \<Rightarrow> int \<Rightarrow> int" where
  "reflectSize fallback v = (let u = v mod 2 ^ 32 in if u \<le> 2147483647 then u else fallback)"

definition noPixels :: "canvas \<Rightarrow> bool" where
  "noPixels c = (canvasWidth c = 0 \<or> canvasHeight c = 0)"

subsection \<open>createWrappedTextCanvas (lines 168-214)\<close>

definition fullFont :: "textParams \<Rightarrow> string" where
  "fullFont p =
     fontStyle p @ '' '' @ fontVariant p @ '' '' @ fontWeight p @ '' '' @ show_int (fontSize p)
       @ ''px '' @ fontVariant p @ '' '' @ fontStretch p @ '' '' @ fontFamily p"

text \<open>
  The inner loop over the words of one paragraph, with its two variables
  \<open>wrappedLines\<close> and \<open>line\<close>; \<open>wrapWord\<close> is its body. \<open>measureWidth\<close> is \<open>ctx.measureText(s).width\<close> under the
  font set on the context.
\<close>

definition wrapWord ::
  "(string \<Rightarrow> real) \<Rightarrow> int \<Rightarrow> string \<Rightarrow> string list \<times> string \<Rightarrow> string list \<times> string"
where
  "wrapWord measureWidth usableWidth word st =
     (case st of (wrappedLines, line) \<Rightarrow>
        let testLine = line @ (if line \<noteq> [] then '' '' else []) @ word
        in if measureWidth testLine > of_int usableWidth \<and> line \<noteq> []
           then (wrappedLines @ [line], word)
           else (wrappedLines, testLine))"

primrec wrapWords ::
  "(string \<Rightarrow> real) \<Rightarrow> int \<Rightarrow> string list \<Rightarrow> string list \<times> string \<Rightarrow> string list \<times> string"
where
  "wrapWords measureWidth usableWidth [] st = st"
| "wrapWords measureWidth usableWidth (word # words) st =
     wrapWords measureWidth usableWidth words (wrapWord measureWidth usableWidth word st)"

text \<open>The outer loop over the paragraphs: each one ends by pushing its last line.\<close>

primrec wrapLines ::
  "(string \<Rightarrow> real) \<Rightarrow> int \<Rightarrow> string list \<Rightarrow> string list \<Rightarrow> string list"
where
  "wrapLines measureWidth usableWidth [] wrappedLines = wrappedLines"
| "wrapLines measureWidth usableWidth (l # lines) wrappedLines =
     wrapLines measureWidth usableWidth lines
       (case wrapWords measureWidth usableWidth (split_on (CHR '' '') l) (wrappedLines, []) of
          (wrappedLines', line) \<Rightarrow> wrappedLines' @ [line])"

text \<open>The drawing loop: one \<open>fillText\<close> per line, \<open>currentY\<close> advancing by \<open>lineHeight\<close>.\<close>

primrec fillLines :: "textParams \<Rightarrow> int \<Rightarrow> string list \<Rightarrow> int \<Rightarrow> drawCall list" where
  "fillLines p usableWidth [] currentY = []"
| "fillLines p usableWidth (l # ls) currentY =
     FillText (fullFont p) (textFillStyle p) (textAlign p) l
       ((if textAlign p = ''center'' then of_int usableWidth / 2 else 0) + of_int (paddingLeft p))
       currentY
     # fillLines p usableWidth ls (currentY + lineHeight p)"

text \<open>
  \<open>measureText\<close> takes the font shorthand and the string. The text destructured from
  the parameter object is a string here: the caller only passes blocks with a truthy
  text, and \<open>null.split\<close> would throw.
\<close>

definition wrappedLinesOf :: "(string \<Rightarrow> string \<Rightarrow> real) \<Rightarrow> int \<Rightarrow> textParams \<Rightarrow> string \<Rightarrow> string list" where
  "wrappedLinesOf measureText maxWidth p text =
     (let usableWidth = maxWidth - paddingLeft p - paddingRight p;
          lines = split_on (CHR 0x0A) text
      in wrapLines (measureText (fullFont p)) usableWidth lines [])"

definition createWrappedTextCanvas ::
  "(string \<Rightarrow> string \<Rightarrow> real) \<Rightarrow> int \<Rightarrow> textParams \<Rightarrow> error + canvas \<times> int"
where
  "createWrappedTextCanvas measureText maxWidth p =
     (case text' p of
        None \<Rightarrow> Inl TypeError
      | Some txt \<Rightarrow>
          let usableWidth = maxWidth - paddingLeft p - paddingRight p;
              wrappedLines = wrappedLinesOf measureText maxWidth p txt;
              totalHeight = int (length wrappedLines) * lineHeight p + lineHeight p - fontSize p
                              + paddingTop p + paddingBottom p
          in Inr (Canvas (reflectSize 300 maxWidth) (reflectSize 150 totalHeight)
                    (fillLines p usableWidth wrappedLines (paddingTop p + lineHeight p)),
                  totalHeight))"

subsection \<open>generateImage (lines 216-277)\<close>

text \<open>
  The two collecting loops (lines 235-248): every block gets its defaults, and a block
  with a truthy text adds the height of its canvas, as read back from the element, to
  \<open>totalHeight\<close> and its canvas to the list; \<open>collectBlock\<close> is the loop body. The
  height that \<open>createWrappedTextCanvas\<close> returns beside the canvas is not used.
\<close>

definition collectBlock ::
  "(string \<Rightarrow> string \<Rightarrow> real) \<Rightarrow> int \<Rightarrow> textParams \<Rightarrow> int \<times> canvas list
     \<Rightarrow> error + int \<times> canvas list"
where
  "collectBlock measureText width block st =
     (case st of (totalHeight, canvases) \<Rightarrow>
        if truthy (text' block)
        then (case createWrappedTextCanvas measureText width block of
                Inl er \<Rightarrow> Inl er
              | Inr (canvas, h) \<Rightarrow> Inr (totalHeight + canvasHeight canvas, canvases @ [canvas]))
        else Inr (totalHeight, canvases))"

primrec collectBlocks ::
  "(string \<Rightarrow> string \<Rightarrow> real) \<Rightarrow> int \<Rightarrow> textParams list \<Rightarrow> int \<times> canvas list
     \<Rightarrow> error + int \<times> canvas list"
where
  "collectBlocks measureText width [] st = Inr st"
| "collectBlocks measureText width (block # blocks) st =
     (case collectBlock measureText width block st of
        Inl er \<Rightarrow> Inl er
      | Inr st' \<Rightarrow> collectBlocks measureText width blocks st')"

text \<open>
  The two drawing loops (lines 256-259 and 264-267), with \<open>currentYPos\<close>; a canvas
  without pixels makes \<open>drawImage\<close> throw.
\<close>

primrec drawCanvases ::
  "canvas list \<Rightarrow> drawCall list \<times> int \<Rightarrow> error + drawCall list \<times> int"
where
  "drawCanvases [] st = Inr st"
| "drawCanvases (canvas # canvases) st =
     (if noPixels canvas then Inl InvalidStateError
      else drawCanvases canvases
             (case st of (cs, currentYPos) \<Rightarrow>
                (cs @ [DrawCanvas canvas 0 0 (canvasWidth canvas) (canvasHeight canvas)
                         0 currentYPos (canvasWidth canvas) (canvasHeight canvas)],
                 currentYPos + canvasHeight canvas)))"

text \<open>
  The body of \<open>image.onload\<close> up to the encoding (lines 229-267): \<open>topText()\<close> and
  \<open>bottomText()\<close> have returned \<open>tops\<close> and \<open>bottoms\<close>. The canvas gets its size
  by assignment, and \<open>fillRect\<close> reads it back.
\<close>

definition composite ::
  "(string \<Rightarrow> string \<Rightarrow> real) \<Rightarrow> string option \<Rightarrow> image \<Rightarrow> textBlock list \<Rightarrow> textBlock list
     \<Rightarrow> error + canvas"
where
  "composite measureText fill img topBlocks bottomBlocks =
     (case collectBlocks measureText (imageWidth img) (map defaultsText topBlocks)
             (imageHeight img, []) of
        Inl er \<Rightarrow> Inl er
      | Inr (h1, tops) \<Rightarrow>
     (case collectBlocks measureText (imageWidth img) (map defaultsText bottomBlocks)
             (h1, []) of
        Inl er \<Rightarrow> Inl er
      | Inr (totalHeight, bottoms) \<Rightarrow>
     (let width = reflectSize 300 (imageWidth img);
          height = reflectSize 150 totalHeight;
          c0 = [FillRect (case fill of
                            Some f \<Rightarrow> if f \<noteq> [] then f else ''#FFFFFF''
                          | None \<Rightarrow> ''#FFFFFF'')
                  0 0 width height]
      in case drawCanvases tops (c0, 0) of
           Inl er \<Rightarrow> Inl er
         | Inr (c1, y1) \<Rightarrow>
        (case drawCanvases bottoms (c1 @ [DrawImage img 0 y1], y1 + imageHeight img) of
           Inl er \<Rightarrow> Inl er
         | Inr (c3, y3) \<Rightarrow> Inr (Canvas width height c3)))))"

subsection \<open>Session storage, the trace and the page\<close>

text \<open>
  The run state under the key \<open>archivalState\<close>, as the object that \<open>JSON.parse\<close> gives
  back. \<open>startPage\<close> is written by \<open>startArchival\<close> and never read.
\<close>

record archivalState =
  pageCount :: jsnum
  startPage :: "string option"
  images :: "string list"

text \<open>
  Session storage holds strings: the JSON text of a run state, or the base64 text of
  a cached page. The two are kept apart by a constructor; one map holds both, so a
  page identifier equal to \<open>archivalState\<close> overwrites the run state as it does in
  the browser.
\<close>

datatype item = State archivalState | Page string

type_synonym storage = "string \<rightharpoonup> item"

datatype event =
    Log string
  | LogBlob int int "blob option"
  | SetItem string item
  | RemoveItem string
  | Clear
  | Navigate string
  | Download string blob

text \<open>
  What one load of a page offers the script: the location, the document that the hooks
  read, and the browser services. \<open>loadImage\<close> is \<open>None\<close> for an image whose
  \<open>onload\<close> never fires; \<open>quota\<close> tells whether a storage content fits (\<open>setItem\<close>
  throws QuotaExceededError otherwise); \<open>toBlob\<close> is the JPEG encoder;
  \<open>generateAsync\<close> is JSZip's, \<open>None\<close> when its promise rejects.
\<close>

record 'd page =
  href :: string
  search :: string
  document :: 'd
  loadImage :: "string \<Rightarrow> image option"
  measureText :: "string \<Rightarrow> string \<Rightarrow> real"
  toBlob :: "canvas \<Rightarrow> 8 word list"
  quota :: "storage \<Rightarrow> bool"
  generateAsync :: "(string \<times> blob) list \<Rightarrow> blob option"

text \<open>
  The script's surroundings that outlive one call: session storage, the registered
  configurations \<open>comicConfigs\<close> (objects that the script can assign into), and the
  trace of everything done so far.
\<close>

record 'd world =
  sessionStorage :: storage
  comicConfigs :: "'d config list"
  trace :: "event list"

definition consoleLog :: "string \<Rightarrow> 'd world \<Rightarrow> 'd world" where
  "consoleLog s w = w\<lparr>trace := trace w @ [Log s]\<rparr>"

definition emit :: "event \<Rightarrow> 'd world \<Rightarrow> 'd world" where
  "emit ev w = w\<lparr>trace := trace w @ [ev]\<rparr>"

definition setItem :: "'d page \<Rightarrow> string \<Rightarrow> item \<Rightarrow> 'd world \<Rightarrow> error + 'd world" where
  "setItem e k v w =
     (if quota e ((sessionStorage w)(k \<mapsto> v))
      then Inr (w\<lparr>sessionStorage := (sessionStorage w)(k \<mapsto> v), trace := trace w @ [SetItem k v]\<rparr>)
      else Inl QuotaExceededError)"

definition removeItem :: "string \<Rightarrow> 'd world \<Rightarrow> 'd world" where
  "removeItem k w =
     w\<lparr>sessionStorage := (sessionStorage w)(k := None), trace := trace w @ [RemoveItem k]\<rparr>"

definition clear :: "'d world \<Rightarrow> 'd world" where
  "clear w = w\<lparr>sessionStorage := Map.empty, trace := trace w @ [Clear]\<rparr>"

text \<open>
  \<open>getItem(k)\<close> as the script tests it: a stored string is truthy unless it is empty,
  and the JSON text of a run state is never empty.
\<close>

fun truthyItem :: "item option \<Rightarrow> bool" where
  "truthyItem None = False"
| "truthyItem (Some (State s)) = True"
| "truthyItem (Some (Page b)) = (b \<noteq> [])"

text \<open>Calling a hook that may be missing: calling \<open>undefined\<close> is a TypeError.\<close>

definition callHook :: "('d \<Rightarrow> error + 'a) option \<Rightarrow> 'd \<Rightarrow> error + 'a" where
  "callHook h d = (case h of None \<Rightarrow> Inl TypeError | Some f \<Rightarrow> f d)"

text \<open>
  \<open>generateImage\<close>. An exception of \<open>pageNumber()\<close> or \<open>imageURL()\<close> rejects the
  returned promise. Everything from \<open>image.onload\<close> on runs in callbacks that nothing
  awaits, so an exception there (a text hook that throws, a \<open>drawImage\<close> that throws,
  a full storage) leaves the promise unsettled, like an image that never loads.
  \<open>toBlob\<close> hands \<open>null\<close> to its callback when the canvas has no pixels; the script
  logs it, and reading \<open>null\<close> as a data URL throws. A missing base64 text is stored
  as the string \<open>undefined\<close>.
\<close>

definition generateImage :: "'d page \<Rightarrow> 'd config \<Rightarrow> 'd world \<Rightarrow> string res \<times> 'd world" where
  "generateImage e config w0 =
     (let w1 = consoleLog ''Generating image...'' w0 in
      case pageNumber config (document e) of
        Inl er \<Rightarrow> (Throw er, w1)
      | Inr filename \<Rightarrow>
     (let w2 = consoleLog (''Processing page: '' @ filename) w1 in
      case imageURL config (document e) of
        Inl er \<Rightarrow> (Throw er, w2)
      | Inr src \<Rightarrow>
     (case loadImage e src of
        None \<Rightarrow> (Pending, w2)
      | Some img \<Rightarrow>
     (let w3 = consoleLog ''Image loaded, drawing to canvas...'' w2 in
      case callHook (topText config) (document e) of
        Inl er \<Rightarrow> (Pending, w3)
      | Inr tops \<Rightarrow>
     (case callHook (bottomText config) (document e) of
        Inl er \<Rightarrow> (Pending, w3)
      | Inr bottoms \<Rightarrow>
     (case composite (measureText e) (fillStyle config) img tops bottoms of
        Inl er \<Rightarrow> (Pending, w3)
      | Inr canvas \<Rightarrow>
     (if noPixels canvas
      then (Pending, emit (LogBlob (canvasWidth canvas) (canvasHeight canvas) None) w3)
      else
     (let blob = \<lparr>bytes = toBlob e canvas, mime = ''image/jpeg''\<rparr>;
          w4 = emit (LogBlob (canvasWidth canvas) (canvasHeight canvas) (Some blob)) w3;
          base64 = (case blobToBase64 blob of Some b \<Rightarrow> b | None \<Rightarrow> ''undefined'')
      in case setItem e filename (Page base64) w4 of
           Inl er \<Rightarrow> (Pending, w4)
         | Inr w5 \<Rightarrow> (Ret filename, w5)))))))))"

subsection \<open>generateCBZ (lines 323-347)\<close>

text \<open>
  How a call of \<open>generateCBZ\<close> ends: the archive is downloaded under a name; or
  \<open>base64ToBlob\<close> throws inside the \<open>forEach\<close>, which ends the call at once; or the
  promise of \<open>generateAsync\<close> rejects; or \<open>bookName\<close> throws inside the \<open>then\<close>
  callback. Nothing handles the last two, and nothing further runs.
\<close>

datatype cbzResult = Delivered string | DrainThrew error | AssemblyRejected | NameThrew error

text \<open>
  The body of the \<open>forEach\<close>, with \<open>firstPage\<close>, \<open>lastPage\<close> and the entries added to
  the zip so far. The stored text goes to \<open>base64ToBlob\<close>; the JSON text of a run
  state starts with a brace, which \<open>atob\<close> rejects.
\<close>

definition drainPage ::
  "string \<Rightarrow> (string option \<times> string option \<times> (string \<times> blob) list) \<times> 'd world
     \<Rightarrow> error + (string option \<times> string option \<times> (string \<times> blob) list) \<times> 'd world"
where
  "drainPage filename st =
     (case st of ((firstPage, lastPage, zipFiles), w) \<Rightarrow>
        if truthyItem (sessionStorage w filename)
        then (case (case sessionStorage w filename of
                      Some (Page base64) \<Rightarrow> base64ToBlob base64 ''image/jpeg''
                    | _ \<Rightarrow> Inl InvalidCharacterError) of
                Inl er \<Rightarrow> Inl er
              | Inr b \<Rightarrow>
                  Inr ((if truthy firstPage then firstPage else Some filename, Some filename,
                        zipFiles @ [(filename @ ''.jpg'', b)]),
                       removeItem filename w))
        else Inr st)"

text \<open>The \<open>forEach\<close>; when its body throws, the world is the one reached so far.\<close>

primrec drainPages ::
  "string list \<Rightarrow> (string option \<times> string option \<times> (string \<times> blob) list) \<times> 'd world
     \<Rightarrow> error \<times> 'd world + (string option \<times> string option \<times> (string \<times> blob) list) \<times> 'd world"
where
  "drainPages [] st = Inr st"
| "drainPages (filename # filenames) st =
     (case drainPage filename st of
        Inl er \<Rightarrow> Inl (er, snd st)
      | Inr st' \<Rightarrow> drainPages filenames st')"

definition generateCBZ ::
  "'d page \<Rightarrow> string list \<Rightarrow> 'd config \<Rightarrow> 'd world \<Rightarrow> cbzResult \<times> 'd world"
where
  "generateCBZ e imgs config w0 =
     (let w1 = consoleLog ''Generating .cbz file...'' w0 in
      case drainPages imgs ((None, None, []), w1) of
        Inl (er, w2) \<Rightarrow> (DrainThrew er, w2)
      | Inr ((firstPage, lastPage, zipFiles), w2) \<Rightarrow>
     (case generateAsync e zipFiles of
        None \<Rightarrow> (AssemblyRejected, w2)
      | Some b \<Rightarrow>
     (case bookName config firstPage lastPage of
        Inl er \<Rightarrow> (NameThrew er, w2)
      | Inr n \<Rightarrow>
          let w3 = emit (Download (n @ ''.cbz'') b) w2;
              w4 = removeItem ''archivalState'' w3
          in (Delivered (n @ ''.cbz''),
              consoleLog (''Download complete: '' @ n @ ''.cbz'') w4))))"

subsection \<open>processPage (lines 279-321)\<close>

datatype outcome =
    Idle
      \<comment> \<open>the script loaded and found no run state\<close>
  | NoConfig
      \<comment> \<open>no configuration matches the location: \<open>processPage\<close> logged that and returned\<close>
  | Navigated string
      \<comment> \<open>\<open>window.location.href\<close> was assigned\<close>
  | Finalized "string list" cbzResult
      \<comment> \<open>\<open>generateCBZ(images, config)\<close> was called with this list and ended so\<close>
  | Threw error
      \<comment> \<open>an exception ended the call\<close>
  | Hung
      \<comment> \<open>an awaited promise never settled\<close>

text \<open>
  \<open>JSON.parse(sessionStorage.getItem('archivalState')) || {}\<close> and the destructuring
  \<open>{pageCount, images = []}\<close>. A cached page under that key is base64 of JPEG data
  (it starts with a slash), which is no JSON text.
\<close>

definition readState :: "'d world \<Rightarrow> error + jsnum \<times> string list" where
  "readState w =
     (case sessionStorage w ''archivalState'' of
        None \<Rightarrow> Inr (Undefined, [])
      | Some (State s) \<Rightarrow> Inr (pageCount s, images s)
      | Some (Page b) \<Rightarrow> Inl SyntaxError)"

text \<open>\<open>comicConfigs.find(...)\<close>, as the position of the first match.\<close>

fun findIndex :: "('a \<Rightarrow> bool) \<Rightarrow> 'a list \<Rightarrow> nat option" where
  "findIndex P [] = None"
| "findIndex P (x # xs) = (if P x then Some 0 else map_option Suc (findIndex P xs))"

text \<open>A value that may be \<open>undefined\<close>, inside a template string or assigned to the location.\<close>

fun linkText :: "string option \<Rightarrow> string" where
  "linkText None = ''undefined''"
| "linkText (Some s) = s"

text \<open>
  Lines 303-320, the decision after the page has been saved and pushed onto \<open>images\<close>:
  build the archive, or store the run state and navigate.
\<close>

definition deciding ::
  "'d page \<Rightarrow> 'd config \<Rightarrow> jsnum \<Rightarrow> string list \<Rightarrow> 'd world \<Rightarrow> outcome \<times> 'd world"
where
  "deciding e config count imgs w0 =
     (case nextPageURL config (document e) of
        Inl er \<Rightarrow> (Threw er, w0)
      | Inr nextLink \<Rightarrow>
          if \<not> truthy nextLink \<or> nextLink = Some (href e)
          then (case generateCBZ e imgs config
                       (consoleLog ''We've reached the last page. Zipping up now.'' w0) of
                  (r, w1) \<Rightarrow> (Finalized imgs r, w1))
          else if le1 count
          then (case generateCBZ e imgs config
                       (consoleLog ''Page count reached. Zipping up now.'' w0) of
                  (r, w1) \<Rightarrow> (Finalized imgs r, w1))
          else
            (let w1 = consoleLog (''Navigating to next page: '' @ linkText nextLink) w0 in
             case setItem e ''archivalState''
                    (State \<lparr>pageCount = json (minus1 count), startPage = None, images = imgs\<rparr>)
                    w1 of
               Inl er \<Rightarrow> (Threw er, w1)
             | Inr w2 \<Rightarrow> (Navigated (linkText nextLink), emit (Navigate (linkText nextLink)) w2)))"

text \<open>
  Modelled from the spec: \<open>waitForIt\<close> is loaded from a helper script that is not among
  the sources. Section 4.5 (WaitingForPage): it suspends, polling the adapter's
  \<open>pageLoaded\<close> predicate, until it reports true, or indefinitely if the page never
  becomes ready. \<open>document e\<close> is the page as it settles, so a predicate that is false
  on it never becomes true.
\<close>

definition waitForIt :: "('d \<Rightarrow> bool) \<Rightarrow> 'd \<Rightarrow> unit res" where
  "waitForIt ready d = (if ready d then Ret () else Pending)"

text \<open>
  Lines 279-301. \<open>_.defaults(config, defaultConfig)\<close> assigns into the object that
  \<open>find\<close> returned, which is the element of \<open>comicConfigs\<close> itself.
  \<open>images.push(filename)\<close> throws a RangeError when the array already has
  2^32 - 1 elements, the most that a JavaScript array holds.
\<close>

definition processPage :: "'d page \<Rightarrow> 'd world \<Rightarrow> outcome \<times> 'd world" where
  "processPage e w0 =
     (let w1 = consoleLog ''Processing page...'' w0 in
      case readState w1 of
        Inl er \<Rightarrow> (Threw er, w1)
      | Inr (count, imgs) \<Rightarrow>
     (case findIndex (\<lambda>it. url it (href e)) (comicConfigs w1) of
        None \<Rightarrow>
          (NoConfig,
           consoleLog
             ''Couldn't find a matching configuration for this page. Make sure the url regex is right.''
             w1)
      | Some i \<Rightarrow>
     (let config = defaultsConfig (comicConfigs w1 ! i);
          w2 = w1\<lparr>comicConfigs := (comicConfigs w1)[i := config]\<rparr>;
          w3 = consoleLog (''Matched config for '' @ name config @ ''!'') w2
      in case (case pageLoaded config of
                 None \<Rightarrow> Ret ()
               | Some ready \<Rightarrow> waitForIt ready (document e)) of
           Throw er \<Rightarrow> (Threw er, w3)
         | Pending \<Rightarrow> (Hung, w3)
         | Ret u \<Rightarrow>
             (case generateImage e config (consoleLog ''Page is loaded.'' w3) of
                (Throw er, w4) \<Rightarrow> (Threw er, w4)
              | (Pending, w4) \<Rightarrow> (Hung, w4)
              | (Ret filename, w4) \<Rightarrow>
                  if int (length imgs) < 4294967295
                  then deciding e config count (imgs @ [filename])
                         (consoleLog (''Saved page '' @ href e @ '' as '' @ filename) w4)
                  else (Threw RangeError, w4)))))"

subsection \<open>startArchival and the script's entry (lines 349-385)\<close>

text \<open>\<open>window.location.search.match(/\?(\d+)/)?.[1]\<close>: the digits after the first
  question mark that is followed by a digit.\<close>

definition isDigit :: "char \<Rightarrow> bool" where
  "isDigit c = (c \<in> set ''0123456789'')"

fun queryDigits :: "string \<Rightarrow> string option" where
  "queryDigits [] = None"
| "queryDigits (c # cs) =
     (if c = CHR ''?'' \<and> takeWhile isDigit cs \<noteq> [] then Some (takeWhile isDigit cs)
      else queryDigits cs)"

definition startArchival :: "'d page \<Rightarrow> jsnum \<Rightarrow> 'd world \<Rightarrow> outcome \<times> 'd world" where
  "startArchival e count w0 =
     (let w1 = consoleLog (''Starting archival for '' @ show_jsnum count @ '' pages...'') w0;
          currentPage = queryDigits (search e);
          w2 = clear w1
      in case setItem e ''archivalState''
                (State \<lparr>pageCount = json count, startPage = currentPage, images = []\<rparr>) w2 of
           Inl er \<Rightarrow> (Threw er, w2)
         | Inr w3 \<Rightarrow> processPage e w3)"

text \<open>
  The last lines of the script, run on every load of a matching page. The script is
  evaluated from its first line, so \<open>comicConfigs\<close> is built anew from the registry
  written in the script; then a run state found in storage resumes the traversal.
\<close>

definition onLoad :: "'d config list \<Rightarrow> 'd page \<Rightarrow> 'd world \<Rightarrow> outcome \<times> 'd world" where
  "onLoad registry e w =
     (if truthyItem (sessionStorage w ''archivalState'')
      then processPage e (w\<lparr>comicConfigs := registry\<rparr>)
      else (Idle, w\<lparr>comicConfigs := registry\<rparr>))"

text \<open>
  A run with budget \<open>N\<close>: \<open>startArchival\<close> with that budget on some page, then any
  number of loads of any pages, each with the outcome of its call and the world it
  leaves.
\<close>

inductive run :: "int \<Rightarrow> outcome \<times> 'd world \<Rightarrow> bool" for N :: int where
  start: "run N (startArchival e (Number N) w)"
| load: "run N (out, w) \<Longrightarrow> run N (onLoad registry e w)"

subsection \<open>Notions used to state the properties\<close>

text \<open>
  Events that change where the traversal stands: a navigation, a storage write.
  \<open>quiet\<close> events are neither. \<open>drained K w w'\<close>: from \<open>w\<close> to \<open>w'\<close> only quiet
  events happened, storage lost at most keys of \<open>K\<close> and is otherwise unchanged, and
  the configurations are the same.
\<close>

fun isNavigate :: "event \<Rightarrow> bool" where
  "isNavigate (Navigate u) = True"
| "isNavigate ev = False"

fun isSetItem :: "event \<Rightarrow> bool" where
  "isSetItem (SetItem k v) = True"
| "isSetItem ev = False"

definition quiet :: "event list \<Rightarrow> bool" where
  "quiet evs = (\<forall>ev \<in> set evs. \<not> isNavigate ev \<and> \<not> isSetItem ev)"

definition drained :: "string set \<Rightarrow> 'd world \<Rightarrow> 'd world \<Rightarrow> bool" where
  "drained K w w' =
     ((\<exists>evs. trace w' = trace w @ evs \<and> quiet evs)
      \<and> (\<forall>k. sessionStorage w' k = sessionStorage w k \<or> k \<in> K \<and> sessionStorage w' k = None)
      \<and> comicConfigs w' = comicConfigs w)"

text \<open>
  Inside \<open>processPage\<close>, once the configuration at position \<open>i\<close> has matched: the
  configuration after \<open>_.defaults\<close>, and the world in which \<open>generateImage\<close> is called.
\<close>

definition matchedConfig :: "'d world \<Rightarrow> nat \<Rightarrow> 'd config" where
  "matchedConfig w i = defaultsConfig (comicConfigs w ! i)"

definition matchedWorld :: "'d world \<Rightarrow> nat \<Rightarrow> 'd world" where
  "matchedWorld w i =
     consoleLog (''Matched config for '' @ name (matchedConfig w i) @ ''!'')
       ((consoleLog ''Processing page...'' w)
          \<lparr>comicConfigs := (comicConfigs w)[i := matchedConfig w i]\<rparr>)"

text \<open>
  The wrapping rule in the specification's words, to compare \<open>createWrappedTextCanvas\<close>
  with. \<open>greedyPack\<close> lays out the words of one paragraph, \<open>line\<close> being the line in
  progress: a line that is still empty takes the next word as it is, however wide; a
  word joins the line while the line with it measures no more than the usable width;
  a word that would overflow ends the line and starts the next one. Paragraphs are
  the pieces between line breaks and are laid out one by one.
\<close>

fun greedyPack :: "(string \<Rightarrow> real) \<Rightarrow> int \<Rightarrow> string \<Rightarrow> string list \<Rightarrow> string list" where
  "greedyPack measureWidth usableWidth line [] = [line]"
| "greedyPack measureWidth usableWidth line (word # words) =
     (if line = [] then greedyPack measureWidth usableWidth word words
      else if measureWidth (line @ '' '' @ word) \<le> of_int usableWidth
      then greedyPack measureWidth usableWidth (line @ '' '' @ word) words
      else line # greedyPack measureWidth usableWidth word words)"

definition specWrap :: "(string \<Rightarrow> real) \<Rightarrow> int \<Rightarrow> string \<Rightarrow> string list" where
  "specWrap measureWidth usableWidth txt =
     concat (map (\<lambda>paragraph. greedyPack measureWidth usableWidth [] (split_on (CHR '' '') paragraph))
               (split_on (CHR 0x0A) txt))"

definition specHeight :: "textParams \<Rightarrow> nat \<Rightarrow> int" where
  "specHeight p lineCount =
     int lineCount * lineHeight p + (lineHeight p - fontSize p) + paddingTop p + paddingBottom p"








text \<open>
  The budget invariant of a run with budget \<open>N\<close>: a stored run state has fewer than
  \<open>N\<close> images; and when \<open>N\<close> is at most 2^53, where subtracting 1 is exact, it holds
  a budget of at least 1, and that budget plus the number of stored images is \<open>N\<close>.
\<close>

definition budgetInv :: "int \<Rightarrow> 'd world \<Rightarrow> bool" where
  "budgetInv N w =
     (\<forall>s. sessionStorage w ''archivalState'' = Some (State s) \<longrightarrow>
          int (length (images s)) < N
          \<and> (N \<le> 9007199254740992 \<longrightarrow>
                (\<exists>n. pageCount s = Number n \<and> 1 \<le> n \<and> n + int (length (images s)) = N)))"

text \<open>The line that \<open>processPage\<close> logs when it stops.\<close>

definition stopMessage :: "'d page \<Rightarrow> string option \<Rightarrow> string" where
  "stopMessage e nextLink =
     (if \<not> truthy nextLink \<or> nextLink = Some (href e)
      then ''We've reached the last page. Zipping up now.''
      else ''Page count reached. Zipping up now.'')"

subsection \<open>A small adapter, for concrete instances\<close>

text \<open>
  A site whose pages are described by a pair: the page identifier and the link to the
  next page, if any. Pages live under \<open>comic/\<close>; images always load; a string
  measures 8 pixels per character; storage never fills up; zipping succeeds.
\<close>

definition exampleConfig :: "(string \<times> string option) config" where
  "exampleConfig =
     \<lparr>name = ''Example'',
      url = (\<lambda>u. take 6 u = ''comic/''),
      bookName = (\<lambda>firstPage lastPage.
                    Inr (''Example '' @ linkText firstPage @ '' to '' @ linkText lastPage)),
      pageNumber = (\<lambda>d. Inr (fst d)),
      nextPageURL = (\<lambda>d. Inr (snd d)),
      imageURL = (\<lambda>d. Inr (fst d @ ''.png'')),
      pageLoaded = None,
      fillStyle = None,
      topText = None,
      bottomText = Some (\<lambda>d. Inr [[Text (TStr ''alt text'')]])\<rparr>"

definition examplePage :: "string \<Rightarrow> string \<Rightarrow> string option \<Rightarrow> (string \<times> string option) page" where
  "examplePage location key next =
     \<lparr>href = location,
      search = '''',
      document = (key, next),
      loadImage = (\<lambda>s. Some \<lparr>imageSrc = s, imageWidth = 200, imageHeight = 100\<rparr>),
      measureText = (\<lambda>font s. 8 * real (length s)),
      toBlob = (\<lambda>c. [255, 216, 255]),
      quota = (\<lambda>s. True),
      generateAsync = (\<lambda>files. Some \<lparr>bytes = concat (map (\<lambda>f. bytes (snd f)) files),
                                        mime = ''application/zip''\<rparr>)\<rparr>"

definition exampleWorld :: "(string \<times> string option) world" where
  "exampleWorld = \<lparr>sessionStorage = Map.empty, comicConfigs = [exampleConfig], trace = []\<rparr>"

section \<open>Properties\<close>

subsection \<open>Effects of the storage primitives and of the archive builder\<close>

lemma trace_consoleLog [simp]: "trace (consoleLog s w) = trace w @ [Log s]"
  by (simp add: consoleLog_def)

lemma storage_consoleLog [simp]: "sessionStorage (consoleLog s w) = sessionStorage w"
  by (simp add: consoleLog_def)

lemma configs_consoleLog [simp]: "comicConfigs (consoleLog s w) = comicConfigs w"
  by (simp add: consoleLog_def)

lemma trace_emit [simp]: "trace (emit ev w) = trace w @ [ev]"
  by (simp add: emit_def)

lemma storage_emit [simp]: "sessionStorage (emit ev w) = sessionStorage w"
  by (simp add: emit_def)

lemma configs_emit [simp]: "comicConfigs (emit ev w) = comicConfigs w"
  by (simp add: emit_def)

lemma trace_removeItem [simp]: "trace (removeItem k w) = trace w @ [RemoveItem k]"
  by (simp add: removeItem_def)

lemma storage_removeItem [simp]:
  "sessionStorage (removeItem k w) = (sessionStorage w)(k := None)"
  by (simp add: removeItem_def)

lemma configs_removeItem [simp]: "comicConfigs (removeItem k w) = comicConfigs w"
  by (simp add: removeItem_def)

lemma setItem_Inr:
  "setItem e k v w = Inr w' \<Longrightarrow>
     trace w' = trace w @ [SetItem k v] \<and> sessionStorage w' = (sessionStorage w)(k \<mapsto> v)
       \<and> comicConfigs w' = comicConfigs w"
  by (auto simp: setItem_def split: if_splits)

lemma setItem_quota:
  "quota e ((sessionStorage w)(k \<mapsto> v)) \<Longrightarrow>
     setItem e k v w =
       Inr (w\<lparr>sessionStorage := (sessionStorage w)(k \<mapsto> v), trace := trace w @ [SetItem k v]\<rparr>)"
  by (simp add: setItem_def)

lemma drained_refl: "drained K w w"
  by (simp add: drained_def quiet_def)

lemma drained_trans:
  assumes "drained K w w1" "drained K' w1 w2"
  shows "drained (K \<union> K') w w2"
proof -
  from assms obtain evs evs' where
    "trace w1 = trace w @ evs" "quiet evs" "trace w2 = trace w1 @ evs'" "quiet evs'"
    unfolding drained_def by blast
  then have "trace w2 = trace w @ (evs @ evs') \<and> quiet (evs @ evs')"
    by (auto simp: quiet_def)
  then have tr: "\<exists>evs. trace w2 = trace w @ evs \<and> quiet evs" by blast
  have st: "sessionStorage w2 k = sessionStorage w k \<or> k \<in> K \<union> K' \<and> sessionStorage w2 k = None"
    for k
    using assms unfolding drained_def by (metis Un_iff)
  from tr st assms show ?thesis
    unfolding drained_def by simp
qed

lemma drained_consoleLog: "drained {} w (consoleLog s w)"
  by (simp add: drained_def quiet_def)

lemma drained_removeItem: "drained {k} w (removeItem k w)"
  by (simp add: drained_def quiet_def)

lemma drained_mono: "drained K w w' \<Longrightarrow> K \<subseteq> K' \<Longrightarrow> drained K' w w'"
  unfolding drained_def by blast

text \<open>The drain loop only removes items and only appends removals to the trace.\<close>

lemma drainPage_Inr:
  assumes "drainPage f (acc, w) = Inr (acc', w')"
  shows "drained {f} w w'"
  using assms
  by (cases acc)
    (auto simp: drainPage_def drained_removeItem drained_refl split: if_splits sum.splits)

lemma drainPages_effect:
  "drainPages fs (acc, w) = Inr (acc', w') \<or> drainPages fs (acc, w) = Inl (er, w') \<Longrightarrow>
     drained (set fs) w w'"
proof (induction fs arbitrary: acc w)
  case Nil
  then show ?case by (simp add: drained_refl)
next
  case (Cons f fs)
  show ?case
  proof (cases "drainPage f (acc, w)")
    case (Inl a)
    with Cons.prems show ?thesis by (simp add: drained_refl)
  next
    case (Inr st)
    obtain acc1 w1 where st: "st = (acc1, w1)" by (cases st)
    from Inr st have step: "drainPage f (acc, w) = Inr (acc1, w1)" by simp
    from Cons.prems Inr st
    have "drainPages fs (acc1, w1) = Inr (acc', w') \<or> drainPages fs (acc1, w1) = Inl (er, w')"
      by simp
    from drained_trans [OF drainPage_Inr [OF step] Cons.IH [OF this]]
    show ?thesis by simp
  qed
qed

text \<open>
  \<open>generateCBZ\<close> writes nothing and never navigates; it removes cached pages named
  in \<open>images\<close> and, only when the archive is delivered, the run state.
\<close>

lemma drained_Download: "drained {} w (emit (Download n b) w)"
  by (simp add: drained_def quiet_def)

lemma generateCBZ_drained:
  assumes "generateCBZ e imgs config w = (r, w')"
  shows "drained (if (\<exists>n. r = Delivered n) then insert ''archivalState'' (set imgs) else set imgs) w w'"
proof -
  let ?w1 = "consoleLog ''Generating .cbz file...'' w"
  have w1: "drained {} w ?w1" by (rule drained_consoleLog)
  show ?thesis
  proof (cases "drainPages imgs ((None, None, []), ?w1)")
    case (Inl a)
    obtain er w2 where a: "a = (er, w2)" by (cases a)
    with Inl assms have w': "w' = w2" "r = DrainThrew er" by (simp_all add: generateCBZ_def)
    from drainPages_effect [of imgs "(None, None, [])" ?w1 _ w2 er] Inl a
    have "drained (set imgs) ?w1 w2" by simp
    from drained_trans [OF w1 this] w' show ?thesis by simp
  next
    case (Inr b)
    obtain acc w2 where b: "b = (acc, w2)" by (cases b)
    obtain firstPage lastPage zipFiles where acc: "acc = (firstPage, lastPage, zipFiles)"
      by (cases acc)
    from drainPages_effect [of imgs "(None, None, [])" ?w1 acc w2] Inr b
    have "drained (set imgs) ?w1 w2" by simp
    from drained_trans [OF w1 this] have d: "drained (set imgs) w w2" by simp
    show ?thesis
    proof (cases "\<exists>n. r = Delivered n")
      case False
      with assms Inr b acc have "w' = w2"
        by (auto simp: generateCBZ_def split: option.splits sum.splits)
      with d False show ?thesis by simp
    next
      case True
      then obtain n where n: "r = Delivered n" by blast
      with assms Inr b acc obtain z m where
        w': "w' = consoleLog (''Download complete: '' @ m @ ''.cbz'')
                    (removeItem ''archivalState'' (emit (Download (m @ ''.cbz'') z) w2))"
        by (auto simp: generateCBZ_def Let_def split: option.splits sum.splits)
      let ?a = "emit (Download (m @ ''.cbz'') z) w2"
      let ?b = "removeItem ''archivalState'' ?a"
      have "drained ({} \<union> {''archivalState''}) w2 ?b"
        by (rule drained_trans [OF drained_Download drained_removeItem])
      from drained_trans [OF this drained_consoleLog]
      have "drained {''archivalState''} w2 w'"
        unfolding w' by simp
      from drained_trans [OF d this] True show ?thesis by simp
    qed
  qed
qed

lemma drained_trace:
  "drained K w w' \<Longrightarrow>
     \<exists>evs. trace w' = trace w @ evs \<and> (\<forall>ev \<in> set evs. \<not> isNavigate ev \<and> \<not> isSetItem ev)"
  by (simp add: drained_def quiet_def)

lemma drained_storage:
  "drained K w w' \<Longrightarrow> sessionStorage w' k = sessionStorage w k \<or> k \<in> K \<and> sessionStorage w' k = None"
  by (simp add: drained_def)

lemma drained_configs: "drained K w w' \<Longrightarrow> comicConfigs w' = comicConfigs w"
  by (simp add: drained_def)

text \<open>Subtracting 1 is exact as long as the result has at most 53 bits.\<close>

lemma dropBits_small: "m < 9007199254740992 \<Longrightarrow> dropBits m = 0"
  by (subst dropBits.simps) simp

lemma roundMagnitude_small:
  assumes "0 \<le> m" "m \<le> 9007199254740992"
  shows "roundMagnitude m = m"
proof (cases "m < 9007199254740992")
  case True
  then show ?thesis
    by (simp add: roundMagnitude_def dropBits_small)
next
  case False
  with assms have m: "m = 9007199254740992" by simp
  have "dropBits 9007199254740992 = Suc (dropBits 4503599627370496)"
    by (subst dropBits.simps) simp
  also have "dropBits 4503599627370496 = 0"
    by (rule dropBits_small) simp
  finally have "dropBits 9007199254740992 = 1" by simp
  then show ?thesis
    by (simp add: roundMagnitude_def m)
qed

lemma roundDouble_exact:
  assumes "\<bar>x\<bar> \<le> 9007199254740992"
  shows "roundDouble x = x"
  using assms roundMagnitude_small [of x] roundMagnitude_small [of "- x"]
  by (cases "x < 0") (simp_all add: roundDouble_def)

lemma minus1_exact:
  "1 \<le> n \<Longrightarrow> n \<le> 9007199254740992 \<Longrightarrow> json (minus1 (Number n)) = Number (n - 1)"
  by (simp add: roundDouble_exact)

subsection \<open>The base64 bridge\<close>

lemma index_of_nth: "distinct xs \<Longrightarrow> n < length xs \<Longrightarrow> index_of (xs ! n) xs = Some n"
proof (induction xs arbitrary: n)
  case Nil
  then show ?case by simp
next
  case (Cons x xs)
  show ?case
  proof (cases n)
    case 0
    then show ?thesis by simp
  next
    case (Suc m)
    with Cons.prems have "m < length xs" "xs ! m \<in> set xs" "x \<notin> set xs" "distinct xs" by auto
    with Cons.IH [of m] Suc show ?thesis by auto
  qed
qed

lemma distinct_b64_alphabet: "distinct b64_alphabet"
  by (simp add: b64_alphabet_def)

lemma length_b64_alphabet: "length b64_alphabet = 64"
  by (simp add: b64_alphabet_def)

lemma b64_index_char: "n < 64 \<Longrightarrow> b64_index (b64_char n) = Some n"
  by (simp add: b64_index_def b64_char_def index_of_nth distinct_b64_alphabet length_b64_alphabet)

lemma b64_char_in_alphabet: "n < 64 \<Longrightarrow> b64_char n \<in> set b64_alphabet"
  by (simp add: b64_char_def length_b64_alphabet)

lemma unat_byte_lt: "unat (a :: 8 word) < 256"
  using unsigned_less [of a, where ?'a = nat] by simp

lemma divmod_digit: "b < k \<Longrightarrow> (a * k + b) div k = (a::nat) \<and> (a * k + b) mod k = b"
  by simp

lemma group3:
  fixes x y z :: nat
  assumes "x < 256" "y < 256" "z < 256"
  shows "x div 4 * 4 + (x mod 4 * 16 + y div 16) div 16 = x"
    and "(x mod 4 * 16 + y div 16) mod 16 * 16 + (y mod 16 * 4 + z div 64) div 4 = y"
    and "(y mod 16 * 4 + z div 64) mod 4 * 64 + z mod 64 = z"
proof -
  have y16: "y div 16 < 16" and z64: "z div 64 < 4"
    using assms by (simp_all add: div_less_iff_less_mult)
  show "x div 4 * 4 + (x mod 4 * 16 + y div 16) div 16 = x"
    using divmod_digit [OF y16, of "x mod 4"] by simp
  show "(x mod 4 * 16 + y div 16) mod 16 * 16 + (y mod 16 * 4 + z div 64) div 4 = y"
    using divmod_digit [OF y16, of "x mod 4"] divmod_digit [OF z64, of "y mod 16"] by simp
  show "(y mod 16 * 4 + z div 64) mod 4 * 64 + z mod 64 = z"
    using divmod_digit [OF z64, of "y mod 16"] by simp
qed

lemma group2:
  fixes x y :: nat
  assumes "x < 256" "y < 256"
  shows "x div 4 * 4 + (x mod 4 * 16 + y div 16) div 16 = x"
    and "(x mod 4 * 16 + y div 16) mod 16 * 16 + (y mod 16 * 4) div 4 = y"
    and "x div 4 * 4 + (x mod 4 * 16) div 16 = x"
proof -
  have y16: "y div 16 < 16"
    using assms by (simp_all add: div_less_iff_less_mult)
  show "x div 4 * 4 + (x mod 4 * 16 + y div 16) div 16 = x"
    using divmod_digit [OF y16, of "x mod 4"] by simp
  show "(x mod 4 * 16 + y div 16) mod 16 * 16 + (y mod 16 * 4) div 4 = y"
    using divmod_digit [OF y16, of "x mod 4"] by simp
  show "x div 4 * 4 + (x mod 4 * 16) div 16 = x"
    by simp
qed

lemma sextet_bounds:
  fixes x y z :: nat
  assumes "x < 256" "y < 256" "z < 256"
  shows "x div 4 < 64" "x mod 4 * 16 + y div 16 < 64" "y mod 16 * 4 + z div 64 < 64"
    "z mod 64 < 64" "y mod 16 * 4 < 64" "x mod 4 * 16 < 64"
proof -
  have a: "y div 16 < 16" "z div 64 < 4" "x mod 4 < 4" "y mod 16 < 16"
    using assms by (simp_all add: div_less_iff_less_mult)
  show "x div 4 < 64" using assms by (simp add: div_less_iff_less_mult)
  show "x mod 4 * 16 + y div 16 < 64" using a by linarith
  show "y mod 16 * 4 + z div 64 < 64" using a by linarith
  show "z mod 64 < 64" by simp
  show "y mod 16 * 4 < 64" using a by linarith
  show "x mod 4 * 16 < 64" using a by linarith
qed

lemma sextets_lt: "s \<in> set (sextets bs) \<Longrightarrow> s < 64"
proof (induction bs arbitrary: s rule: sextets.induct)
  case (1 a b c r)
  with sextet_bounds [OF unat_byte_lt [of a] unat_byte_lt [of b] unat_byte_lt [of c]]
  show ?case by auto
next
  case (2 a b)
  with sextet_bounds [OF unat_byte_lt [of a] unat_byte_lt [of b] unat_byte_lt [of b]]
  show ?case by auto
next
  case (3 a)
  with sextet_bounds [OF unat_byte_lt [of a] unat_byte_lt [of a] unat_byte_lt [of a]]
  show ?case by auto
next
  case 4
  then show ?case by simp
qed

lemma those_index_char:
  "\<forall>s \<in> set sx. s < 64 \<Longrightarrow> those (map b64_index (map b64_char sx)) = Some sx"
  by (induction sx) (simp_all add: b64_index_char)

lemma b64_bytes_sextets: "b64_bytes (sextets bs) = map unat bs"
proof (induction bs rule: sextets.induct)
  case (1 a b c r)
  with group3 [OF unat_byte_lt [of a] unat_byte_lt [of b] unat_byte_lt [of c]]
  show ?case by simp
next
  case (2 a b)
  with group2 [OF unat_byte_lt [of a] unat_byte_lt [of b]]
  show ?case by simp
next
  case (3 a)
  with group2 [OF unat_byte_lt [of a] unat_byte_lt [of a]]
  show ?case by simp
next
  case 4
  then show ?case by simp
qed

lemma length_sextets: "length (sextets bs) = (length bs div 3) * 4 + (if length bs mod 3 = 0 then 0 else length bs mod 3 + 1)"
  by (induction bs rule: sextets.induct) simp_all

lemma concat_byteArrays: "concat (byteArrays i cs) = map of_nat (drop i cs)"
proof (induction i cs rule: byteArrays.induct)
  case (1 i cs)
  show ?case
  proof (cases "i < length cs")
    case True
    have "map of_nat (take 512 (drop i cs)) @ map of_nat (drop (i + 512) cs) = map of_nat (drop i cs)"
      by (metis add.commute append_take_drop_id drop_drop map_append)
    with 1 True show ?thesis
      by (subst byteArrays.simps) simp
  next
    case False
    then show ?thesis by (subst byteArrays.simps) simp
  qed
qed

lemma alphabet_chars:
  "c \<in> set b64_alphabet \<Longrightarrow> \<not> ascii_whitespace c \<and> c \<noteq> CHR ''='' \<and> c \<noteq> CHR '',''"
  by (auto simp: b64_alphabet_def ascii_whitespace_def)

lemma body_chars:
  "c \<in> set (map b64_char (sextets bs)) \<Longrightarrow>
     \<not> ascii_whitespace c \<and> c \<noteq> CHR ''='' \<and> c \<noteq> CHR '',''"
  using alphabet_chars b64_char_in_alphabet sextets_lt by auto

lemma encode_chars:
  "c \<in> set (b64_encode bs) \<Longrightarrow> \<not> ascii_whitespace c \<and> c \<noteq> CHR '',''"
  using body_chars [of c bs] by (auto simp: b64_encode_def ascii_whitespace_def)

lemma strip_padding_replicate:
  assumes "CHR ''='' \<notin> set xs" "k \<le> 2"
  shows "strip_padding (xs @ replicate k (CHR ''='')) = xs"
proof -
  consider "k = 0" | "k = 1" | "k = 2" using assms(2) by linarith
  then show ?thesis
  proof cases
    case 1
    with assms(1) show ?thesis
      by (cases xs rule: rev_cases) (auto simp: strip_padding_def split: list.splits)
  next
    case 2
    with assms(1) show ?thesis
      by (cases xs rule: rev_cases) (auto simp: strip_padding_def split: list.splits)
  next
    case 3
    then have "replicate k (CHR ''='') = [CHR ''='', CHR ''='']"
      by (simp add: numeral_2_eq_2)
    then show ?thesis
      by (simp add: strip_padding_def)
  qed
qed

lemma length_encode: "length (b64_encode bs) mod 4 = 0"
proof -
  have "length bs mod 3 = 0 \<or> length bs mod 3 = 1 \<or> length bs mod 3 = 2" by linarith
  then show ?thesis
    by (auto simp: b64_encode_def length_sextets)
qed

lemma length_body: "length (sextets bs) mod 4 \<noteq> 1"
proof -
  have "length bs mod 3 = 0 \<or> length bs mod 3 = 1 \<or> length bs mod 3 = 2" by linarith
  then show ?thesis
    by (auto simp: length_sextets)
qed

lemma atob_encode: "atob (b64_encode bs) = Inr (map unat bs)"
proof -
  let ?body = "map b64_char (sextets bs)"
  have ws: "filter (\<lambda>c. \<not> ascii_whitespace c) (b64_encode bs) = b64_encode bs"
    using encode_chars by (simp add: filter_id_conv)
  have "CHR ''='' \<notin> set ?body"
    using body_chars [of "CHR ''=''" bs] by blast
  then have strip: "strip_padding (b64_encode bs) = ?body"
    unfolding b64_encode_def by (rule strip_padding_replicate) simp
  have len: "length ?body mod 4 \<noteq> 1"
    using length_body by simp
  have dec: "those (map b64_index ?body) = Some (sextets bs)"
    by (rule those_index_char) (simp add: sextets_lt)
  show ?thesis
    unfolding atob_def Let_def ws
    using length_encode strip len dec b64_bytes_sextets by simp
qed

lemma split_on_none: "c \<notin> set xs \<Longrightarrow> split_on c xs = [xs]"
  by (induction xs) auto

lemma split_on_first: "c \<notin> set xs \<Longrightarrow> split_on c (xs @ c # ys) = xs # split_on c ys"
  by (induction xs) auto

lemma blobToBase64_encode:
  assumes "CHR '','' \<notin> set (mime b)"
  shows "blobToBase64 b = Some (b64_encode (bytes b))"
proof -
  have "readAsDataURL b = (''data:'' @ mime b @ '';base64'') @ CHR '','' # b64_encode (bytes b)"
    by (simp add: readAsDataURL_def)
  moreover have "CHR '','' \<notin> set (''data:'' @ mime b @ '';base64'')"
    using assms by simp
  moreover have "CHR '','' \<notin> set (b64_encode (bytes b))"
    using encode_chars by blast
  ultimately show ?thesis
    by (simp add: blobToBase64_def split_on_first split_on_none del: append.simps append_assoc)
qed

text \<open>
  Claim C10. For every byte sequence, \<open>blobToBase64\<close> followed by \<open>base64ToBlob\<close>
  gives a blob with exactly the original bytes. The blob's type must not contain a
  comma, as \<open>blobToBase64\<close> cuts the data URL at its first one; the only blob the
  script encodes is the \<open>image/jpeg\<close> one of \<open>canvas.toBlob\<close>.
\<close>

theorem base64_round_trip:
  assumes "CHR '','' \<notin> set (mime b)"
  shows "\<exists>base64. blobToBase64 b = Some base64 \<and>
           base64ToBlob base64 type = Inr \<lparr>bytes = bytes b, mime = type\<rparr>"
proof -
  have "concat (byteArrays 0 (map unat (bytes b))) = bytes b"
    by (simp add: concat_byteArrays comp_def)
  then show ?thesis
    using assms by (simp add: blobToBase64_encode base64ToBlob_def atob_encode)
qed

theorem base64_round_trip_witness:
  "CHR '','' \<notin> set (mime \<lparr>bytes = [77, 97, 110, 33], mime = ''image/jpeg''\<rparr>) \<and>
   (\<exists>base64. blobToBase64 \<lparr>bytes = [77, 97, 110, 33], mime = ''image/jpeg''\<rparr> = Some base64 \<and>
      base64ToBlob base64 ''image/jpeg'' =
        Inr \<lparr>bytes = bytes \<lparr>bytes = [77, 97, 110, 33], mime = ''image/jpeg''\<rparr>,
             mime = ''image/jpeg''\<rparr>)"
  using base64_round_trip [of "\<lparr>bytes = [77, 97, 110, 33], mime = ''image/jpeg''\<rparr>" "''image/jpeg''"]
  by simp

subsection \<open>The decision after a page (lines 303-320)\<close>

lemma deciding_finalizes:
  assumes "nextPageURL config (document e) = Inr nextLink"
    and "\<not> truthy nextLink \<or> nextLink = Some (href e) \<or> le1 count"
  shows "deciding e config count imgs w =
           (Finalized imgs (fst (generateCBZ e imgs config (consoleLog (stopMessage e nextLink) w))),
            snd (generateCBZ e imgs config (consoleLog (stopMessage e nextLink) w)))"
  using assms by (auto simp: deciding_def stopMessage_def case_prod_beta)

lemma deciding_navigates:
  assumes "nextPageURL config (document e) = Inr nextLink"
    and "\<not> (\<not> truthy nextLink \<or> nextLink = Some (href e) \<or> le1 count)"
    and "setItem e ''archivalState''
           (State \<lparr>pageCount = json (minus1 count), startPage = None, images = imgs\<rparr>)
           (consoleLog (''Navigating to next page: '' @ linkText nextLink) w) = Inr w2"
  shows "deciding e config count imgs w =
           (Navigated (linkText nextLink), emit (Navigate (linkText nextLink)) w2)"
  using assms by (simp add: deciding_def Let_def)

lemma deciding_quota:
  assumes "nextPageURL config (document e) = Inr nextLink"
    and "\<not> (\<not> truthy nextLink \<or> nextLink = Some (href e) \<or> le1 count)"
    and "setItem e ''archivalState''
           (State \<lparr>pageCount = json (minus1 count), startPage = None, images = imgs\<rparr>)
           (consoleLog (''Navigating to next page: '' @ linkText nextLink) w) = Inl er"
  shows "deciding e config count imgs w =
           (Threw er, consoleLog (''Navigating to next page: '' @ linkText nextLink) w)"
  using assms by (simp add: deciding_def Let_def)

lemma deciding_throws:
  assumes "nextPageURL config (document e) = Inl er"
  shows "deciding e config count imgs w = (Threw er, w)"
  using assms by (simp add: deciding_def)


text \<open>
  Claim C1, as amended. After a page has been saved and pushed, the script builds the
  archive if and only if \<open>nextPageURL()\<close> is falsy, or equals the current location, or
  the budget read at the start of this page, before it is decremented, is at most 1.
  With a larger budget \<open>n\<close> (up to 2^53 = 9007199254740992, where the subtraction
  is exact) and a next
  link that differs from the location, it logs the navigation, stores the run state
  with the budget \<open>n - 1\<close> and the images under \<open>archivalState\<close>, and navigates to the
  link, in that order and with no other effect (unless storage is full); in
  particular a budget of 2 stores the budget 1 and navigates.
\<close>

theorem deciding_stop_condition:
  assumes "nextPageURL config (document e) = Inr nextLink"
  shows "((\<exists>r. fst (deciding e config (Number n) imgs w) = Finalized imgs r)
            \<longleftrightarrow> \<not> truthy nextLink \<or> nextLink = Some (href e) \<or> n \<le> 1)
         \<and> (truthy nextLink \<and> nextLink \<noteq> Some (href e) \<and> 1 < n \<and> n \<le> 9007199254740992
              \<and> quota e ((sessionStorage w)(''archivalState'' \<mapsto>
                    State \<lparr>pageCount = Number (n - 1), startPage = None, images = imgs\<rparr>))
            \<longrightarrow> deciding e config (Number n) imgs w =
                  (Navigated (linkText nextLink),
                   w\<lparr>sessionStorage := (sessionStorage w)(''archivalState'' \<mapsto>
                          State \<lparr>pageCount = Number (n - 1), startPage = None, images = imgs\<rparr>),
                      trace := trace w @
                        [Log (''Navigating to next page: '' @ linkText nextLink),
                         SetItem ''archivalState''
                           (State \<lparr>pageCount = Number (n - 1), startPage = None, images = imgs\<rparr>),
                         Navigate (linkText nextLink)]\<rparr>))"
proof (cases "\<not> truthy nextLink \<or> nextLink = Some (href e) \<or> le1 (Number n)")
  case True
  from deciding_finalizes [OF assms True, of imgs w] True show ?thesis
    by auto
next
  case False
  let ?s = "State \<lparr>pageCount = json (minus1 (Number n)), startPage = None, images = imgs\<rparr>"
  let ?w = "consoleLog (''Navigating to next page: '' @ linkText nextLink) w"
  have iff: "(\<exists>r. fst (deciding e config (Number n) imgs w) = Finalized imgs r)
            \<longleftrightarrow> \<not> truthy nextLink \<or> nextLink = Some (href e) \<or> n \<le> 1"
  proof (cases "setItem e ''archivalState'' ?s ?w")
    case (Inl er)
    from deciding_quota [OF assms False Inl] False show ?thesis
      by auto
  next
    case (Inr w2)
    from deciding_navigates [OF assms False Inr] False show ?thesis
      by auto
  qed
  have nav: "deciding e config (Number n) imgs w =
                  (Navigated (linkText nextLink),
                   w\<lparr>sessionStorage := (sessionStorage w)(''archivalState'' \<mapsto>
                          State \<lparr>pageCount = Number (n - 1), startPage = None, images = imgs\<rparr>),
                      trace := trace w @
                        [Log (''Navigating to next page: '' @ linkText nextLink),
                         SetItem ''archivalState''
                           (State \<lparr>pageCount = Number (n - 1), startPage = None, images = imgs\<rparr>),
                         Navigate (linkText nextLink)]\<rparr>)"
    if n: "1 < n" "n \<le> 9007199254740992"
      and q: "quota e ((sessionStorage w)(''archivalState'' \<mapsto>
                State \<lparr>pageCount = Number (n - 1), startPage = None, images = imgs\<rparr>))"
  proof -
    from n have dec: "json (minus1 (Number n)) = Number (n - 1)"
      by (intro minus1_exact) simp_all
    from q have "setItem e ''archivalState'' ?s ?w =
        Inr (?w\<lparr>sessionStorage := (sessionStorage ?w)(''archivalState'' \<mapsto> ?s),
                trace := trace ?w @ [SetItem ''archivalState'' ?s]\<rparr>)"
      unfolding dec by (intro setItem_quota) simp
    from deciding_navigates [OF assms False this] show ?thesis
      unfolding dec by (simp add: emit_def consoleLog_def)
  qed
  from iff nav show ?thesis by blast
qed

text \<open>
  Claim C1 as stated says that a budget of 2, which leaves 1 after this page, stops the
  traversal. On the example site, a budget of 2 and a next link to another page
  navigate, and the budget 1 is stored.
\<close>

theorem deciding_budget_two_counterexample:
  "fst (deciding (examplePage ''comic/1'' ''1'' (Some ''comic/2'')) exampleConfig (Number 2)
          [''1''] exampleWorld) = Navigated ''comic/2''
   \<and> sessionStorage
        (snd (deciding (examplePage ''comic/1'' ''1'' (Some ''comic/2'')) exampleConfig (Number 2)
                [''1''] exampleWorld)) ''archivalState''
       = Some (State \<lparr>pageCount = Number 1, startPage = None, images = [''1'']\<rparr>)
   \<and> nextPageURL exampleConfig (document (examplePage ''comic/1'' ''1'' (Some ''comic/2'')))
       = Inr (Some ''comic/2'')
   \<and> Some ''comic/2'' \<noteq> Some (href (examplePage ''comic/1'' ''1'' (Some ''comic/2'')))
   \<and> (2::int) - 1 \<le> 1"
  by code_simp

theorem deciding_stop_condition_witness:
  "nextPageURL exampleConfig (document (examplePage ''comic/1'' ''1'' (Some ''comic/2'')))
     = Inr (Some ''comic/2'')
   \<and> fst (deciding (examplePage ''comic/1'' ''1'' (Some ''comic/2'')) exampleConfig (Number 2)
            [''1''] exampleWorld) = Navigated ''comic/2''
   \<and> sessionStorage
        (snd (deciding (examplePage ''comic/1'' ''1'' (Some ''comic/2'')) exampleConfig (Number 2)
                [''1''] exampleWorld)) ''archivalState''
       = Some (State \<lparr>pageCount = Number 1, startPage = None, images = [''1'']\<rparr>)
   \<and> trace (snd (deciding (examplePage ''comic/1'' ''1'' (Some ''comic/2'')) exampleConfig (Number 2)
                [''1''] exampleWorld))
       = [Log ''Navigating to next page: comic/2'',
          SetItem ''archivalState''
            (State \<lparr>pageCount = Number 1, startPage = None, images = [''1'']\<rparr>),
          Navigate ''comic/2'']"
proof -
  have link: "nextPageURL exampleConfig (document (examplePage ''comic/1'' ''1'' (Some ''comic/2'')))
     = Inr (Some ''comic/2'')"
    by (simp add: exampleConfig_def examplePage_def)
  from deciding_stop_condition [OF link, of 2 "[''1'']" exampleWorld] link
  show ?thesis
    by (simp add: examplePage_def exampleWorld_def)
qed

text \<open>
  Claim C3. Whatever the run state and the budget, when \<open>nextPageURL()\<close> returns a falsy
  value or the current location, the decision is to build the archive:
  \<open>generateCBZ\<close> is called with the images collected so far, and no event from
  there on is a navigation.
\<close>

theorem last_page_finalizes:
  assumes "nextPageURL config (document e) = Inr nextLink"
    and "\<not> truthy nextLink \<or> nextLink = Some (href e)"
  shows "deciding e config count imgs w =
           (Finalized imgs
              (fst (generateCBZ e imgs config
                      (consoleLog ''We've reached the last page. Zipping up now.'' w))),
            snd (generateCBZ e imgs config
                   (consoleLog ''We've reached the last page. Zipping up now.'' w)))
         \<and> (\<exists>evs. trace (snd (deciding e config count imgs w)) = trace w @ evs
                \<and> (\<forall>ev \<in> set evs. \<not> isNavigate ev))"
proof -
  let ?w1 = "consoleLog ''We've reached the last page. Zipping up now.'' w"
  let ?g = "generateCBZ e imgs config ?w1"
  from assms have msg: "stopMessage e nextLink = ''We've reached the last page. Zipping up now.''"
    by (auto simp: stopMessage_def)
  from assms have "\<not> truthy nextLink \<or> nextLink = Some (href e) \<or> le1 count" by blast
  from deciding_finalizes [OF assms(1) this, of imgs w] msg
  have d: "deciding e config count imgs w = (Finalized imgs (fst ?g), snd ?g)" by simp
  obtain K where "drained K ?w1 (snd ?g)"
    using generateCBZ_drained [of e imgs config ?w1 "fst ?g" "snd ?g"] by auto
  from drained_trace [OF this] obtain evs where
    "trace (snd ?g) = trace ?w1 @ evs" "\<forall>ev \<in> set evs. \<not> isNavigate ev \<and> \<not> isSetItem ev"
    by blast
  then have "trace (snd ?g) = trace w @ (Log ''We've reached the last page. Zipping up now.'' # evs)
      \<and> (\<forall>ev \<in> set (Log ''We've reached the last page. Zipping up now.'' # evs). \<not> isNavigate ev)"
    by simp
  then have "\<exists>evs. trace (snd ?g) = trace w @ evs \<and> (\<forall>ev \<in> set evs. \<not> isNavigate ev)"
    by blast
  with d show ?thesis by simp
qed

theorem last_page_finalizes_witness:
  "nextPageURL exampleConfig (document (examplePage ''comic/9'' ''9'' (Some ''comic/9'')))
     = Inr (Some ''comic/9'')
   \<and> Some ''comic/9'' = Some (href (examplePage ''comic/9'' ''9'' (Some ''comic/9'')))
   \<and> fst (deciding (examplePage ''comic/9'' ''9'' (Some ''comic/9'')) exampleConfig (Number 5)
            [''9''] (exampleWorld\<lparr>sessionStorage := [''9'' \<mapsto> Page ''/9j/'']\<rparr>))
       = Finalized [''9''] (Delivered ''Example 9 to 9.cbz'')"
proof -
  let ?e = "examplePage ''comic/9'' ''9'' (Some ''comic/9'')"
  let ?w = "exampleWorld\<lparr>sessionStorage := [''9'' \<mapsto> Page ''/9j/'']\<rparr>"
  have link: "nextPageURL exampleConfig (document ?e) = Inr (Some ''comic/9'')"
    by (simp add: exampleConfig_def examplePage_def)
  have same: "\<not> truthy (Some ''comic/9'') \<or> Some ''comic/9'' = Some (href ?e)"
    by (simp add: examplePage_def)
  have cbz: "fst (generateCBZ ?e [''9''] exampleConfig
                    (consoleLog ''We've reached the last page. Zipping up now.'' ?w))
             = Delivered ''Example 9 to 9.cbz''"
    by code_simp
  from last_page_finalizes [OF link same, of "Number 5" "[''9'']" ?w] link cbz
  show ?thesis
    by (simp add: examplePage_def)
qed

subsection \<open>One call of processPage\<close>

text \<open>What \<open>generateImage\<close> does to the world: it logs, and it may cache one page.\<close>

lemma generateImage_configs:
  "generateImage e c w = (r, w') \<Longrightarrow> comicConfigs w' = comicConfigs w"
  by (auto simp: generateImage_def Let_def setItem_def
      split: sum.splits option.splits if_splits)

lemma generateImage_storage:
  "generateImage e c w = (r, w') \<Longrightarrow>
     sessionStorage w' = sessionStorage w
     \<or> (\<exists>f b. pageNumber c (document e) = Inr f \<and> sessionStorage w' = (sessionStorage w)(f \<mapsto> Page b))"
  by (auto simp: generateImage_def Let_def setItem_def
      split: sum.splits option.splits if_splits)

lemma generateImage_trace:
  "generateImage e c w = (r, w') \<Longrightarrow>
     \<exists>evs. trace w' = trace w @ evs
       \<and> (\<forall>ev \<in> set evs. \<not> isNavigate ev \<and> (\<forall>k v. ev = SetItem k v \<longrightarrow> (\<exists>b. v = Page b)))"
  by (auto simp: generateImage_def Let_def setItem_def
      split: sum.splits option.splits if_splits)

lemma generateImage_Ret:
  "generateImage e c w = (Ret f, w') \<Longrightarrow>
     pageNumber c (document e) = Inr f \<and> (\<exists>b. sessionStorage w' = (sessionStorage w)(f \<mapsto> Page b))"
  by (auto simp: generateImage_def Let_def setItem_def
      split: sum.splits option.splits if_splits)


lemma deciding_Navigated:
  assumes "deciding e c count imgs w = (Navigated u, w')"
  shows "trace w' = trace w @
           [Log (''Navigating to next page: '' @ u),
            SetItem ''archivalState''
              (State \<lparr>pageCount = json (minus1 count), startPage = None, images = imgs\<rparr>),
            Navigate u]"
    and "sessionStorage w' = (sessionStorage w)(''archivalState'' \<mapsto>
            State \<lparr>pageCount = json (minus1 count), startPage = None, images = imgs\<rparr>)"
    and "comicConfigs w' = comicConfigs w"
    and "\<not> le1 count"
    and "\<exists>nextLink. nextPageURL c (document e) = Inr nextLink \<and> truthy nextLink
           \<and> nextLink \<noteq> Some (href e) \<and> u = linkText nextLink"
  using assms
  by (auto simp: deciding_def Let_def setItem_def split: sum.splits if_splits prod.splits)

lemma deciding_effect:
  assumes "deciding e c count imgs w = (out, w')"
  shows "comicConfigs w' = comicConfigs w"
    and "out = Finalized l r \<Longrightarrow> l = imgs"
    and "out \<noteq> Idle \<and> out \<noteq> NoConfig \<and> out \<noteq> Hung"
    and "sessionStorage w' ''archivalState'' = Some (State s) \<Longrightarrow>
           sessionStorage w ''archivalState'' = Some (State s)
           \<or> s = \<lparr>pageCount = json (minus1 count), startPage = None, images = imgs\<rparr> \<and> \<not> le1 count"
proof -
  have "comicConfigs w' = comicConfigs w \<and> (out = Finalized l r \<longrightarrow> l = imgs)
      \<and> (out \<noteq> Idle \<and> out \<noteq> NoConfig \<and> out \<noteq> Hung)
      \<and> (sessionStorage w' ''archivalState'' = Some (State s) \<longrightarrow>
           sessionStorage w ''archivalState'' = Some (State s)
           \<or> s = \<lparr>pageCount = json (minus1 count), startPage = None, images = imgs\<rparr> \<and> \<not> le1 count)"
  proof (cases "nextPageURL c (document e)")
    case (Inl er)
    with assms show ?thesis by (auto simp: deciding_throws)
  next
    case (Inr nextLink)
    show ?thesis
    proof (cases "\<not> truthy nextLink \<or> nextLink = Some (href e) \<or> le1 count")
      case True
      let ?g = "generateCBZ e imgs c (consoleLog (stopMessage e nextLink) w)"
      from deciding_finalizes [OF Inr True, of imgs w] assms
      have out: "out = Finalized imgs (fst ?g)" and w': "w' = snd ?g" by simp_all
      obtain K where "drained K (consoleLog (stopMessage e nextLink) w) w'"
        using generateCBZ_drained [of e imgs c _ "fst ?g" "snd ?g"] w' by auto
      from drained_storage [OF this, of "''archivalState''"] drained_configs [OF this] out
      show ?thesis by auto
    next
      case False
      let ?s = "State \<lparr>pageCount = json (minus1 count), startPage = None, images = imgs\<rparr>"
      let ?w = "consoleLog (''Navigating to next page: '' @ linkText nextLink) w"
      show ?thesis
      proof (cases "setItem e ''archivalState'' ?s ?w")
        case (Inl er)
        from deciding_quota [OF Inr False Inl] assms show ?thesis by auto
      next
        case (Inr w2)
        from deciding_navigates [OF \<open>nextPageURL c (document e) = Inr nextLink\<close> False Inr] assms
          setItem_Inr [OF Inr] False
        show ?thesis by auto
      qed
    qed
  qed
  then show "comicConfigs w' = comicConfigs w"
    and "out = Finalized l r \<Longrightarrow> l = imgs"
    and "out \<noteq> Idle \<and> out \<noteq> NoConfig \<and> out \<noteq> Hung"
    and "sessionStorage w' ''archivalState'' = Some (State s) \<Longrightarrow>
           sessionStorage w ''archivalState'' = Some (State s)
           \<or> s = \<lparr>pageCount = json (minus1 count), startPage = None, images = imgs\<rparr> \<and> \<not> le1 count"
    by simp_all
qed

lemma readState_consoleLog [simp]: "readState (consoleLog s w) = readState w"
  by (simp add: readState_def)

text \<open>The ways in which a call of \<open>processPage\<close> can go.\<close>

lemma processPage_cases [consumes 1, case_names badState noConfig notReady imageThrew imageHung full saved]:
  assumes "processPage e w = (out, w')"
  obtains
    er where "readState w = Inl er" "out = Threw er" "w' = consoleLog ''Processing page...'' w"
  | count imgs where "readState w = Inr (count, imgs)"
      "findIndex (\<lambda>it. url it (href e)) (comicConfigs w) = None" "out = NoConfig"
      "w' = consoleLog
         ''Couldn't find a matching configuration for this page. Make sure the url regex is right.''
         (consoleLog ''Processing page...'' w)"
  | count imgs i where "readState w = Inr (count, imgs)"
      "findIndex (\<lambda>it. url it (href e)) (comicConfigs w) = Some i"
      "out = Hung" "w' = matchedWorld w i"
  | count imgs i er where "readState w = Inr (count, imgs)"
      "findIndex (\<lambda>it. url it (href e)) (comicConfigs w) = Some i"
      "generateImage e (matchedConfig w i) (consoleLog ''Page is loaded.'' (matchedWorld w i))
         = (Throw er, w')"
      "out = Threw er"
  | count imgs i where "readState w = Inr (count, imgs)"
      "findIndex (\<lambda>it. url it (href e)) (comicConfigs w) = Some i"
      "generateImage e (matchedConfig w i) (consoleLog ''Page is loaded.'' (matchedWorld w i))
         = (Pending, w')"
      "out = Hung"
  | count imgs i filename where "readState w = Inr (count, imgs)"
      "findIndex (\<lambda>it. url it (href e)) (comicConfigs w) = Some i"
      "generateImage e (matchedConfig w i) (consoleLog ''Page is loaded.'' (matchedWorld w i))
         = (Ret filename, w')"
      "\<not> int (length imgs) < 4294967295" "out = Threw RangeError"
  | count imgs i filename w4 where "readState w = Inr (count, imgs)"
      "findIndex (\<lambda>it. url it (href e)) (comicConfigs w) = Some i"
      "generateImage e (matchedConfig w i) (consoleLog ''Page is loaded.'' (matchedWorld w i))
         = (Ret filename, w4)"
      "int (length imgs) < 4294967295"
      "deciding e (matchedConfig w i) count (imgs @ [filename])
         (consoleLog (''Saved page '' @ href e @ '' as '' @ filename) w4) = (out, w')"
proof (cases "readState w")
  case (Inl er)
  with assms that(1) show ?thesis
    by (simp add: processPage_def)
next
  case (Inr st)
  obtain count imgs where st: "st = (count, imgs)" by (cases st)
  note rs = Inr [unfolded st]
  show ?thesis
  proof (cases "findIndex (\<lambda>it. url it (href e)) (comicConfigs w)")
    case None
    with assms rs that(2) show ?thesis
      by (simp add: processPage_def)
  next
    case (Some i)
    let ?c = "matchedConfig w i"
    let ?w3 = "matchedWorld w i"
    let ?wait = "case pageLoaded ?c of None \<Rightarrow> Ret () | Some ready \<Rightarrow> waitForIt ready (document e)"
    have wait: "?wait = Ret () \<or> ?wait = Pending"
      by (simp add: waitForIt_def split: option.splits)
    show ?thesis
    proof (cases "?wait = Pending")
      case True
      with assms rs Some that(3) show ?thesis
        by (simp add: processPage_def matchedConfig_def matchedWorld_def Let_def)
    next
      case False
      with wait have True: "?wait = Ret ()" by simp
      obtain g w4 where g: "generateImage e ?c (consoleLog ''Page is loaded.'' ?w3) = (g, w4)"
        by (cases "generateImage e ?c (consoleLog ''Page is loaded.'' ?w3)")
      from assms rs Some True g
      have *: "(out, w') =
          (case g of
             Throw er \<Rightarrow> (Threw er, w4)
           | Pending \<Rightarrow> (Hung, w4)
           | Ret filename \<Rightarrow>
               if int (length imgs) < 4294967295
               then deciding e ?c count (imgs @ [filename])
                      (consoleLog (''Saved page '' @ href e @ '' as '' @ filename) w4)
               else (Threw RangeError, w4))"
        by (auto simp: processPage_def matchedConfig_def matchedWorld_def Let_def
            split: res.splits if_splits)
      show ?thesis
      proof (cases g)
        case (Ret filename)
        show ?thesis
        proof (cases "int (length imgs) < 4294967295")
          case True
          with Ret * g rs Some that(7) show ?thesis by simp
        next
          case False
          with Ret * g rs Some that(6) show ?thesis by simp
        qed
      next
        case (Throw er)
        with * g rs Some that(4) show ?thesis by simp
      next
        case Pending
        with * g rs Some that(5) show ?thesis by simp
      qed
    qed
  qed
qed


lemma findIndex_Some:
  "findIndex P xs = Some i \<Longrightarrow> i < length xs \<and> P (xs ! i) \<and> (\<forall>j < i. \<not> P (xs ! j))"
proof (induction xs arbitrary: i)
  case Nil
  then show ?case by simp
next
  case (Cons x xs)
  show ?case
  proof (cases "P x")
    case True
    with Cons.prems show ?thesis by simp
  next
    case False
    with Cons.prems obtain k where k: "findIndex P xs = Some k" "i = Suc k" by auto
    from Cons.IH [OF k(1)] k(2) False show ?thesis
      by (auto simp: less_Suc_eq_0_disj)
  qed
qed

lemma findIndex_None: "findIndex P xs = None \<longleftrightarrow> (\<forall>x \<in> set xs. \<not> P x)"
  by (induction xs) auto

lemma trace_matchedWorld [simp]:
  "trace (matchedWorld w i) =
     trace w @ [Log ''Processing page...'', Log (''Matched config for '' @ name (matchedConfig w i) @ ''!'')]"
  by (simp add: matchedWorld_def consoleLog_def)

lemma storage_matchedWorld [simp]: "sessionStorage (matchedWorld w i) = sessionStorage w"
  by (simp add: matchedWorld_def consoleLog_def)

lemma configs_matchedWorld [simp]:
  "comicConfigs (matchedWorld w i) = (comicConfigs w)[i := matchedConfig w i]"
  by (simp add: matchedWorld_def consoleLog_def)

lemma matchedConfig_fields [simp]:
  "url (matchedConfig w i) = url (comicConfigs w ! i)"
  "name (matchedConfig w i) = name (comicConfigs w ! i)"
  "bookName (matchedConfig w i) = bookName (comicConfigs w ! i)"
  "pageNumber (matchedConfig w i) = pageNumber (comicConfigs w ! i)"
  "nextPageURL (matchedConfig w i) = nextPageURL (comicConfigs w ! i)"
  "imageURL (matchedConfig w i) = imageURL (comicConfigs w ! i)"
  "fillStyle (matchedConfig w i) = fillStyle (comicConfigs w ! i)"
  by (simp_all add: matchedConfig_def defaultsConfig_def)


text \<open>
  Claim C6, as amended. Whenever \<open>processPage\<close> navigates, the target is the link that
  \<open>nextPageURL()\<close> of the first matching configuration returned, and the run state
  read at the start of the call is written back under \<open>archivalState\<close> with the
  budget \<open>pageCount - 1\<close>, as JavaScript computes and serialises it, and the
  identifier of the current page appended to \<open>images\<close>. That write is the event just
  before the navigation, which is the last event of the call, and nothing before it
  in the call is a navigation. The budget was above 1, and when it is a number of at
  most 2^53 = 9007199254740992, where doubles subtract exactly, the stored budget is
  the old one minus one.
\<close>

theorem state_persisted_before_navigation:
  assumes "processPage e w = (Navigated u, w')"
  shows "\<exists>count imgs filename pre i.
           readState w = Inr (count, imgs)
           \<and> findIndex (\<lambda>it. url it (href e)) (comicConfigs w) = Some i
           \<and> pageNumber (comicConfigs w ! i) (document e) = Inr filename
           \<and> nextPageURL (comicConfigs w ! i) (document e) = Inr (Some u)
           \<and> u \<noteq> href e
           \<and> trace w' = trace w @ pre @
                 [SetItem ''archivalState''
                    (State \<lparr>pageCount = json (minus1 count), startPage = None,
                            images = imgs @ [filename]\<rparr>),
                  Navigate u]
           \<and> (\<forall>ev \<in> set pre. \<not> isNavigate ev)
           \<and> sessionStorage w' ''archivalState'' =
                 Some (State \<lparr>pageCount = json (minus1 count), startPage = None,
                              images = imgs @ [filename]\<rparr>)
           \<and> \<not> le1 count
           \<and> (\<forall>n. count = Number n \<and> n \<le> 9007199254740992 \<longrightarrow>
                  1 < n \<and> json (minus1 count) = Number (n - 1))"
  using assms
proof (cases rule: processPage_cases)
  case (saved count imgs i filename w4)
  let ?c = "comicConfigs w ! i"
  let ?s = "State \<lparr>pageCount = json (minus1 count), startPage = None, images = imgs @ [filename]\<rparr>"
  from generateImage_Ret [OF saved(3)] have f: "pageNumber ?c (document e) = Inr filename"
    by simp
  from generateImage_trace [OF saved(3)] obtain evs where
    evs: "trace w4 = trace (consoleLog ''Page is loaded.'' (matchedWorld w i)) @ evs"
      "\<forall>ev \<in> set evs. \<not> isNavigate ev"
    by blast
  let ?pre = "[Log ''Processing page...'',
               Log (''Matched config for '' @ name (matchedConfig w i) @ ''!''),
               Log ''Page is loaded.''] @ evs @
              [Log (''Saved page '' @ href e @ '' as '' @ filename),
               Log (''Navigating to next page: '' @ u)]"
  from deciding_Navigated(1) [OF saved(5)] evs(1)
  have tr: "trace w' = trace w @ ?pre @ [SetItem ''archivalState'' ?s, Navigate u]"
    by simp
  from evs(2) have pre: "\<forall>ev \<in> set ?pre. \<not> isNavigate ev"
    by simp
  from deciding_Navigated(2) [OF saved(5)]
  have st: "sessionStorage w' ''archivalState'' = Some ?s"
    by simp
  from deciding_Navigated(4) [OF saved(5)] have big: "\<not> le1 count" .
  from deciding_Navigated(5) [OF saved(5)] obtain nextLink where
    "nextPageURL ?c (document e) = Inr nextLink" "truthy nextLink"
    "nextLink \<noteq> Some (href e)" "u = linkText nextLink"
    by auto
  then have link: "nextPageURL ?c (document e) = Inr (Some u)" "u \<noteq> href e"
    by (cases nextLink; simp)+
  have dec: "\<forall>n. count = Number n \<and> n \<le> 9007199254740992 \<longrightarrow>
                  1 < n \<and> json (minus1 count) = Number (n - 1)"
  proof (intro allI impI)
    fix n
    assume n: "count = Number n \<and> n \<le> 9007199254740992"
    with big have "1 < n" by simp
    with n minus1_exact [of n] show "1 < n \<and> json (minus1 count) = Number (n - 1)"
      by simp
  qed
  from saved(1,2) f link tr pre st big dec show ?thesis
    by blast
qed simp_all

theorem state_persisted_before_navigation_witness:
  "fst (processPage (examplePage ''comic/1'' ''1'' (Some ''comic/2''))
          (exampleWorld\<lparr>sessionStorage :=
             [''archivalState'' \<mapsto> State \<lparr>pageCount = Number 3, startPage = None, images = []\<rparr>]\<rparr>))
     = Navigated ''comic/2''
   \<and> nextPageURL exampleConfig (document (examplePage ''comic/1'' ''1'' (Some ''comic/2'')))
       = Inr (Some ''comic/2'')
   \<and> sessionStorage
         (snd (processPage (examplePage ''comic/1'' ''1'' (Some ''comic/2''))
                 (exampleWorld\<lparr>sessionStorage :=
                    [''archivalState'' \<mapsto> State \<lparr>pageCount = Number 3, startPage = None, images = []\<rparr>]\<rparr>)))
         ''archivalState''
       = Some (State \<lparr>pageCount = Number 2, startPage = None, images = [''1'']\<rparr>)"
proof -
  let ?e = "examplePage ''comic/1'' ''1'' (Some ''comic/2'')"
  let ?w = "exampleWorld\<lparr>sessionStorage :=
              [''archivalState'' \<mapsto> State \<lparr>pageCount = Number 3, startPage = None, images = []\<rparr>]\<rparr>"
  have out: "fst (processPage ?e ?w) = Navigated ''comic/2''"
    by code_simp
  then have run: "processPage ?e ?w = (Navigated ''comic/2'', snd (processPage ?e ?w))"
    by (simp add: prod_eq_iff)
  have rs: "readState ?w = Inr (Number 3, [])"
    by (simp add: readState_def)
  have fi: "findIndex (\<lambda>it. url it (href ?e)) (comicConfigs ?w) = Some 0"
    by (simp add: exampleWorld_def exampleConfig_def examplePage_def)
  have cf: "comicConfigs ?w ! 0 = exampleConfig"
    by (simp add: exampleWorld_def)
  have pn: "pageNumber exampleConfig (document ?e) = Inr ''1''"
    by (simp add: exampleConfig_def examplePage_def)
  from state_persisted_before_navigation [OF run] rs fi cf pn out show ?thesis
    by auto
qed

text \<open>
  Claim C6 as stated says that the stored budget is the old one minus one on every
  navigation. A budget of 2^53 + 2 = 9007199254740994 is a double, the difference
  9007199254740993 is not, and the budget stored before the navigation is
  9007199254740992.
\<close>

theorem decrement_rounds_counterexample:
  "fst (processPage (examplePage ''comic/1'' ''1'' (Some ''comic/2''))
          (exampleWorld\<lparr>sessionStorage :=
             [''archivalState'' \<mapsto>
                State \<lparr>pageCount = Number 9007199254740994, startPage = None, images = []\<rparr>]\<rparr>))
     = Navigated ''comic/2''
   \<and> sessionStorage
         (snd (processPage (examplePage ''comic/1'' ''1'' (Some ''comic/2''))
                 (exampleWorld\<lparr>sessionStorage :=
                    [''archivalState'' \<mapsto>
                       State \<lparr>pageCount = Number 9007199254740994, startPage = None,
                              images = []\<rparr>]\<rparr>)))
         ''archivalState''
       = Some (State \<lparr>pageCount = Number 9007199254740992, startPage = None, images = [''1'']\<rparr>)"
  by code_simp

subsection \<open>The page budget\<close>

lemma readState_State:
  "readState w = Inr (count, imgs) \<Longrightarrow> sessionStorage w ''archivalState'' \<noteq> None \<Longrightarrow>
     \<exists>s. sessionStorage w ''archivalState'' = Some (State s) \<and> pageCount s = count \<and> images s = imgs"
  by (auto simp: readState_def split: option.splits item.splits)

lemma budgetInv_same:
  "budgetInv N w \<Longrightarrow> sessionStorage w' ''archivalState'' = sessionStorage w ''archivalState'' \<Longrightarrow>
     budgetInv N w'"
  by (simp add: budgetInv_def)

lemma budgetInv_generateImage:
  assumes "generateImage e c w = (r, w')" "budgetInv N w"
  shows "budgetInv N w'"
  using generateImage_storage [OF assms(1)] assms(2)
  by (auto simp: budgetInv_def split: if_splits)

lemma generateImage_keeps_state:
  assumes "generateImage e c w = (r, w')" "sessionStorage w' ''archivalState'' = Some (State s)"
  shows "sessionStorage w ''archivalState'' = Some (State s)"
  using generateImage_storage [OF assms(1)] assms(2)
  by (auto split: if_splits)

text \<open>One call of \<open>processPage\<close> on a stored run state keeps the invariant.\<close>

lemma processPage_budget:
  assumes call: "processPage e w = (out, w')"
    and inv: "budgetInv N w"
    and stored: "sessionStorage w ''archivalState'' \<noteq> None"
  shows "budgetInv N w'" and "out = Finalized l r \<Longrightarrow> int (length l) \<le> N"
proof -
  have "budgetInv N w' \<and> (out = Finalized l r \<longrightarrow> int (length l) \<le> N)"
    using call
  proof (cases rule: processPage_cases)
    case (badState er)
    with inv show ?thesis by (simp add: budgetInv_def)
  next
    case (noConfig count imgs)
    with inv show ?thesis by (simp add: budgetInv_def)
  next
    case (notReady count imgs i)
    with inv show ?thesis by (simp add: budgetInv_def)
  next
    case (imageThrew count imgs i er)
    have "budgetInv N (consoleLog ''Page is loaded.'' (matchedWorld w i))"
      using inv by (simp add: budgetInv_def)
    from budgetInv_generateImage [OF imageThrew(3) this] imageThrew(4)
    show ?thesis by simp
  next
    case (imageHung count imgs i)
    have "budgetInv N (consoleLog ''Page is loaded.'' (matchedWorld w i))"
      using inv by (simp add: budgetInv_def)
    from budgetInv_generateImage [OF imageHung(3) this] imageHung(4)
    show ?thesis by simp
  next
    case (full count imgs i filename)
    have "budgetInv N (consoleLog ''Page is loaded.'' (matchedWorld w i))"
      using inv by (simp add: budgetInv_def)
    from budgetInv_generateImage [OF full(3) this] full(5)
    show ?thesis by simp
  next
    case (saved count imgs i filename w4)
    from readState_State [OF saved(1) stored] obtain s0 where
      s0: "sessionStorage w ''archivalState'' = Some (State s0)" "pageCount s0 = count"
        "images s0 = imgs"
      by blast
    with inv have short: "int (length imgs) < N"
      and exact: "N \<le> 9007199254740992 \<Longrightarrow>
        \<exists>n. count = Number n \<and> 1 \<le> n \<and> n + int (length imgs) = N"
      by (auto simp: budgetInv_def)
    let ?w5 = "consoleLog (''Saved page '' @ href e @ '' as '' @ filename) w4"
    have fin: "out = Finalized l r \<longrightarrow> int (length l) \<le> N"
      using deciding_effect(2) [OF saved(5), of l r] short by auto
    have "budgetInv N w'"
      unfolding budgetInv_def
    proof (intro allI impI)
      fix s
      assume s: "sessionStorage w' ''archivalState'' = Some (State s)"
      from deciding_effect(4) [OF saved(5) s]
      consider "sessionStorage ?w5 ''archivalState'' = Some (State s)"
        | "s = \<lparr>pageCount = json (minus1 count), startPage = None, images = imgs @ [filename]\<rparr>"
          "\<not> le1 count"
        by blast
      then show "int (length (images s)) < N
          \<and> (N \<le> 9007199254740992 \<longrightarrow>
                (\<exists>m. pageCount s = Number m \<and> 1 \<le> m \<and> m + int (length (images s)) = N))"
      proof cases
        case 1
        then have "sessionStorage w4 ''archivalState'' = Some (State s)" by simp
        from generateImage_keeps_state [OF saved(3) this]
        have "sessionStorage w ''archivalState'' = Some (State s)" by simp
        with inv show ?thesis by (simp add: budgetInv_def)
      next
        case 2
        show ?thesis
        proof (cases "N \<le> 9007199254740992")
          case True
          from exact [OF True] obtain n where
            n: "count = Number n" "1 \<le> n" "n + int (length imgs) = N"
            by blast
          with 2(2) have n1: "1 < n" by simp
          from n True have "n \<le> 9007199254740992" by simp
          with n(2) have "json (minus1 (Number n)) = Number (n - 1)"
            by (rule minus1_exact)
          with 2(1) n n1 True show ?thesis by simp
        next
          case False
          with 2(1) saved(4) show ?thesis by simp
        qed
      qed
    qed
    with fin show ?thesis by simp
  qed
  then show "budgetInv N w'" and "out = Finalized l r \<Longrightarrow> int (length l) \<le> N"
    by simp_all
qed

lemma startArchival_budget:
  assumes "startArchival e (Number N) w = (out, w')" "1 \<le> N"
  shows "budgetInv N w'" and "out = Finalized l r \<Longrightarrow> int (length l) \<le> N"
proof -
  let ?w2 = "clear (consoleLog (''Starting archival for '' @ show_jsnum (Number N) @ '' pages...'') w)"
  let ?s = "State \<lparr>pageCount = json (Number N), startPage = queryDigits (search e), images = []\<rparr>"
  have "budgetInv N w' \<and> (out = Finalized l r \<longrightarrow> int (length l) \<le> N)"
  proof (cases "setItem e ''archivalState'' ?s ?w2")
    case (Inl er)
    with assms(1) have "out = Threw er" "w' = ?w2"
      by (simp_all add: startArchival_def Let_def)
    then show ?thesis by (simp add: budgetInv_def clear_def)
  next
    case (Inr w3)
    with assms(1) have call: "processPage e w3 = (out, w')"
      by (simp add: startArchival_def Let_def)
    from setItem_Inr [OF Inr] have st: "sessionStorage w3 ''archivalState'' = Some ?s"
      by simp
    with assms(2) have "budgetInv N w3" by (simp add: budgetInv_def)
    from processPage_budget [OF call this] st show ?thesis by simp
  qed
  then show "budgetInv N w'" and "out = Finalized l r \<Longrightarrow> int (length l) \<le> N"
    by simp_all
qed

lemma onLoad_budget:
  assumes "onLoad registry e w = (out, w')" "budgetInv N w"
  shows "budgetInv N w'" and "out = Finalized l r \<Longrightarrow> int (length l) \<le> N"
proof -
  have "budgetInv N w' \<and> (out = Finalized l r \<longrightarrow> int (length l) \<le> N)"
  proof (cases "truthyItem (sessionStorage w ''archivalState'')")
    case False
    with assms show ?thesis by (auto simp: onLoad_def budgetInv_def)
  next
    case True
    let ?w = "w\<lparr>comicConfigs := registry\<rparr>"
    from True assms(1) have call: "processPage e ?w = (out, w')"
      by (simp add: onLoad_def)
    from True have st: "sessionStorage ?w ''archivalState'' \<noteq> None"
      by (cases "sessionStorage w ''archivalState''") simp_all
    from assms(2) have "budgetInv N ?w" by (simp add: budgetInv_def)
    from processPage_budget [OF call this st] show ?thesis by simp
  qed
  then show "budgetInv N w'" and "out = Finalized l r \<Longrightarrow> int (length l) \<le> N"
    by simp_all
qed

lemma run_budget:
  assumes "run N x" "1 \<le> N"
  shows "budgetInv N (snd x) \<and> (\<forall>l r. fst x = Finalized l r \<longrightarrow> int (length l) \<le> N)"
  using assms
proof (induction rule: run.induct)
  case (start e w)
  obtain out w' where r: "startArchival e (Number N) w = (out, w')"
    by (cases "startArchival e (Number N) w")
  from startArchival_budget [OF r start] r show ?case by auto
next
  case (load out w registry e)
  obtain out' w' where r: "onLoad registry e w = (out', w')"
    by (cases "onLoad registry e w")
  from load have "budgetInv N w" by simp
  from onLoad_budget [OF r this] r show ?case by auto
qed

text \<open>
  Claim C2. In a run started with an integer budget \<open>N \<ge> 1\<close>, over any sequence of
  page loads (navigations, reloads, resumes after a failure), every list of images
  handed to \<open>generateCBZ\<close> has at most \<open>N\<close> entries, and the list in a stored run
  state has fewer than \<open>N\<close>, so that the page appended next is at most the \<open>N\<close>th.
\<close>

theorem traversal_budget:
  assumes "1 \<le> N" and "run N (out, w)"
  shows "(\<forall>l r. out = Finalized l r \<longrightarrow> int (length l) \<le> N)
         \<and> (\<forall>s. sessionStorage w ''archivalState'' = Some (State s) \<longrightarrow> int (length (images s)) < N)"
  using run_budget [OF assms(2) assms(1)]
  by (auto simp: budgetInv_def)

theorem traversal_budget_witness:
  "(1::int) \<le> 2
   \<and> run 2 (onLoad [exampleConfig] (examplePage ''comic/2'' ''2'' (Some ''comic/3''))
              (snd (startArchival (examplePage ''comic/1'' ''1'' (Some ''comic/2'')) (Number 2)
                      exampleWorld)))
   \<and> fst (onLoad [exampleConfig] (examplePage ''comic/2'' ''2'' (Some ''comic/3''))
            (snd (startArchival (examplePage ''comic/1'' ''1'' (Some ''comic/2'')) (Number 2)
                    exampleWorld)))
       = Finalized [''1'', ''2''] (Delivered ''Example 1 to 2.cbz'')
   \<and> int (length [''1'', ''2'']) \<le> 2"
proof -
  let ?r1 = "startArchival (examplePage ''comic/1'' ''1'' (Some ''comic/2'')) (Number 2) exampleWorld"
  let ?r2 = "onLoad [exampleConfig] (examplePage ''comic/2'' ''2'' (Some ''comic/3'')) (snd ?r1)"
  have "run 2 (fst ?r1, snd ?r1)"
    using run.start [of 2 "examplePage ''comic/1'' ''1'' (Some ''comic/2'')" exampleWorld] by simp
  from run.load [OF this, of "[exampleConfig]" "examplePage ''comic/2'' ''2'' (Some ''comic/3'')"]
  have r: "run 2 ?r2" .
  then have r': "run 2 (fst ?r2, snd ?r2)" by simp
  have out: "fst ?r2 = Finalized [''1'', ''2''] (Delivered ''Example 1 to 2.cbz'')"
    by code_simp
  have one: "(1::int) \<le> 2" by simp
  from traversal_budget [OF one r'] out r show ?thesis
    by simp
qed

subsection \<open>The registered configurations\<close>

text \<open>What a call of \<open>processPage\<close> does to the registered configurations.\<close>

lemma processPage_configs_matched:
  assumes "processPage e w = (out, w')"
    and "readState w = Inr st"
    and "findIndex (\<lambda>it. url it (href e)) (comicConfigs w) = Some i"
  shows "comicConfigs w' = (comicConfigs w)[i := defaultsConfig (comicConfigs w ! i)]"
  using assms(1)
proof (cases rule: processPage_cases)
  case (badState er)
  with assms(2) show ?thesis by simp
next
  case (noConfig count imgs)
  with assms(3) show ?thesis by simp
next
  case (notReady count imgs k)
  with assms(3) show ?thesis by (simp add: matchedConfig_def)
next
  case (imageThrew count imgs k er)
  from generateImage_configs [OF imageThrew(3)] imageThrew(2) assms(3) show ?thesis
    by (simp add: matchedConfig_def)
next
  case (imageHung count imgs k)
  from generateImage_configs [OF imageHung(3)] imageHung(2) assms(3) show ?thesis
    by (simp add: matchedConfig_def)
next
  case (full count imgs k filename)
  from generateImage_configs [OF full(3)] full(2) assms(3) show ?thesis
    by (simp add: matchedConfig_def)
next
  case (saved count imgs k filename w4)
  from generateImage_configs [OF saved(3)] deciding_effect(1) [OF saved(5)] saved(2) assms(3)
  show ?thesis
    by (simp add: matchedConfig_def)
qed

lemma processPage_configs_unmatched:
  assumes "processPage e w = (out, w')"
    and "(\<exists>er. readState w = Inl er) \<or> findIndex (\<lambda>it. url it (href e)) (comicConfigs w) = None"
  shows "comicConfigs w' = comicConfigs w"
  using assms(1)
proof (cases rule: processPage_cases)
  case (badState er)
  then show ?thesis by simp
next
  case (noConfig count imgs)
  then show ?thesis by simp
qed (use assms(2) in auto)

text \<open>
  Claim C9, as amended. When \<open>processPage\<close> has read the run state and a configuration
  matches the location, the registered object of the first match is assigned into:
  afterwards the list of configurations is the old one with that configuration
  replaced by itself after \<open>_.defaults\<close>, so a missing \<open>pageLoaded\<close> is now the
  predicate that is always true, and a missing \<open>topText\<close> or \<open>bottomText\<close> the hook
  that returns no block. When the run state cannot be read or no configuration
  matches, the list is unchanged. In every case the list keeps its length, and every
  configuration keeps its \<open>name\<close>, \<open>url\<close>, \<open>bookName\<close>, \<open>pageNumber\<close>, \<open>nextPageURL\<close>,
  \<open>imageURL\<close> and \<open>fillStyle\<close> and every optional hook that it had; a configuration
  that changed is the first match. Text blocks are values returned by the hooks, so
  merging their defaults touches no configuration.
\<close>

theorem defaults_fill_matched_config:
  assumes "processPage e w = (out, w')"
  shows "(\<forall>st i. readState w = Inr st
              \<and> findIndex (\<lambda>it. url it (href e)) (comicConfigs w) = Some i \<longrightarrow>
            comicConfigs w' = (comicConfigs w)[i := defaultsConfig (comicConfigs w ! i)]
            \<and> i < length (comicConfigs w)
            \<and> (pageLoaded (comicConfigs w ! i) = None \<longrightarrow>
                  (\<exists>ready. pageLoaded (comicConfigs w' ! i) = Some ready \<and> (\<forall>d. ready d)))
            \<and> (topText (comicConfigs w ! i) = None \<longrightarrow>
                  (\<exists>hook. topText (comicConfigs w' ! i) = Some hook \<and> (\<forall>d. hook d = Inr [])))
            \<and> (bottomText (comicConfigs w ! i) = None \<longrightarrow>
                  (\<exists>hook. bottomText (comicConfigs w' ! i) = Some hook \<and> (\<forall>d. hook d = Inr []))))
         \<and> ((\<exists>er. readState w = Inl er)
              \<or> findIndex (\<lambda>it. url it (href e)) (comicConfigs w) = None \<longrightarrow>
            comicConfigs w' = comicConfigs w)
         \<and> length (comicConfigs w') = length (comicConfigs w)
         \<and> (\<forall>j < length (comicConfigs w).
               name (comicConfigs w' ! j) = name (comicConfigs w ! j)
               \<and> url (comicConfigs w' ! j) = url (comicConfigs w ! j)
               \<and> bookName (comicConfigs w' ! j) = bookName (comicConfigs w ! j)
               \<and> pageNumber (comicConfigs w' ! j) = pageNumber (comicConfigs w ! j)
               \<and> nextPageURL (comicConfigs w' ! j) = nextPageURL (comicConfigs w ! j)
               \<and> imageURL (comicConfigs w' ! j) = imageURL (comicConfigs w ! j)
               \<and> fillStyle (comicConfigs w' ! j) = fillStyle (comicConfigs w ! j)
               \<and> (pageLoaded (comicConfigs w ! j) \<noteq> None \<longrightarrow>
                    pageLoaded (comicConfigs w' ! j) = pageLoaded (comicConfigs w ! j))
               \<and> (topText (comicConfigs w ! j) \<noteq> None \<longrightarrow>
                    topText (comicConfigs w' ! j) = topText (comicConfigs w ! j))
               \<and> (bottomText (comicConfigs w ! j) \<noteq> None \<longrightarrow>
                    bottomText (comicConfigs w' ! j) = bottomText (comicConfigs w ! j))
               \<and> (comicConfigs w' ! j \<noteq> comicConfigs w ! j \<longrightarrow>
                    findIndex (\<lambda>it. url it (href e)) (comicConfigs w) = Some j
                    \<and> comicConfigs w' ! j = defaultsConfig (comicConfigs w ! j)))"
proof -
  have matched: "comicConfigs w' = (comicConfigs w)[i := defaultsConfig (comicConfigs w ! i)]
      \<and> i < length (comicConfigs w)
      \<and> (pageLoaded (comicConfigs w ! i) = None \<longrightarrow>
            (\<exists>ready. pageLoaded (comicConfigs w' ! i) = Some ready \<and> (\<forall>d. ready d)))
      \<and> (topText (comicConfigs w ! i) = None \<longrightarrow>
            (\<exists>hook. topText (comicConfigs w' ! i) = Some hook \<and> (\<forall>d. hook d = Inr [])))
      \<and> (bottomText (comicConfigs w ! i) = None \<longrightarrow>
            (\<exists>hook. bottomText (comicConfigs w' ! i) = Some hook \<and> (\<forall>d. hook d = Inr [])))"
    if rs: "readState w = Inr st"
      and fi: "findIndex (\<lambda>it. url it (href e)) (comicConfigs w) = Some i" for st i
  proof -
    from findIndex_Some [OF fi] have i: "i < length (comicConfigs w)" by simp
    from processPage_configs_matched [OF assms rs fi]
    have eq: "comicConfigs w' = (comicConfigs w)[i := defaultsConfig (comicConfigs w ! i)]" .
    with i have "comicConfigs w' ! i = defaultsConfig (comicConfigs w ! i)" by simp
    with eq i show ?thesis
      by (simp add: defaultsConfig_def)
  qed
  have unmatched: "comicConfigs w' = comicConfigs w"
    if "(\<exists>er. readState w = Inl er) \<or> findIndex (\<lambda>it. url it (href e)) (comicConfigs w) = None"
    using processPage_configs_unmatched [OF assms that] .
  consider "comicConfigs w' = comicConfigs w"
    | i where "findIndex (\<lambda>it. url it (href e)) (comicConfigs w) = Some i"
        "comicConfigs w' = (comicConfigs w)[i := defaultsConfig (comicConfigs w ! i)]"
  proof (cases "readState w")
    case (Inl er)
    with unmatched that(1) show ?thesis by blast
  next
    case (Inr st)
    show ?thesis
    proof (cases "findIndex (\<lambda>it. url it (href e)) (comicConfigs w)")
      case None
      with unmatched that(1) show ?thesis by blast
    next
      case (Some i)
      from matched [OF Inr Some] Some that(2) show ?thesis by blast
    qed
  qed
  then have frame: "length (comicConfigs w') = length (comicConfigs w)
         \<and> (\<forall>j < length (comicConfigs w).
               name (comicConfigs w' ! j) = name (comicConfigs w ! j)
               \<and> url (comicConfigs w' ! j) = url (comicConfigs w ! j)
               \<and> bookName (comicConfigs w' ! j) = bookName (comicConfigs w ! j)
               \<and> pageNumber (comicConfigs w' ! j) = pageNumber (comicConfigs w ! j)
               \<and> nextPageURL (comicConfigs w' ! j) = nextPageURL (comicConfigs w ! j)
               \<and> imageURL (comicConfigs w' ! j) = imageURL (comicConfigs w ! j)
               \<and> fillStyle (comicConfigs w' ! j) = fillStyle (comicConfigs w ! j)
               \<and> (pageLoaded (comicConfigs w ! j) \<noteq> None \<longrightarrow>
                    pageLoaded (comicConfigs w' ! j) = pageLoaded (comicConfigs w ! j))
               \<and> (topText (comicConfigs w ! j) \<noteq> None \<longrightarrow>
                    topText (comicConfigs w' ! j) = topText (comicConfigs w ! j))
               \<and> (bottomText (comicConfigs w ! j) \<noteq> None \<longrightarrow>
                    bottomText (comicConfigs w' ! j) = bottomText (comicConfigs w ! j))
               \<and> (comicConfigs w' ! j \<noteq> comicConfigs w ! j \<longrightarrow>
                    findIndex (\<lambda>it. url it (href e)) (comicConfigs w) = Some j
                    \<and> comicConfigs w' ! j = defaultsConfig (comicConfigs w ! j)))"
  proof cases
    case 1
    then show ?thesis by simp
  next
    case 2
    have nth: "comicConfigs w' ! j =
        (if j = i then defaultsConfig (comicConfigs w ! i) else comicConfigs w ! j)"
      if "j < length (comicConfigs w)" for j
      using that by (simp add: 2(2) nth_list_update)
    show ?thesis
    proof (intro conjI allI impI)
      show "length (comicConfigs w') = length (comicConfigs w)"
        by (simp add: 2(2))
    qed (auto simp: nth 2(1) defaultsConfig_def split: if_splits)
  qed
  from matched unmatched frame show ?thesis
    by blast
qed

theorem defaults_fill_matched_config_witness:
  "readState exampleWorld = Inr (Undefined, [])
   \<and> findIndex (\<lambda>it. url it (href (examplePage ''comic/1'' ''1'' None))) (comicConfigs exampleWorld)
       = Some 0
   \<and> topText (comicConfigs exampleWorld ! 0) = None
   \<and> comicConfigs (snd (processPage (examplePage ''comic/1'' ''1'' None) exampleWorld))
       = [defaultsConfig exampleConfig]
   \<and> name (comicConfigs (snd (processPage (examplePage ''comic/1'' ''1'' None) exampleWorld)) ! 0)
       = ''Example''
   \<and> bottomText (comicConfigs (snd (processPage (examplePage ''comic/1'' ''1'' None) exampleWorld)) ! 0)
       = bottomText exampleConfig"
proof -
  let ?e = "examplePage ''comic/1'' ''1'' None"
  let ?r = "processPage ?e exampleWorld"
  have call: "?r = (fst ?r, snd ?r)" by simp
  have rs: "readState exampleWorld = Inr (Undefined, [])"
    by (simp add: readState_def exampleWorld_def)
  have fi: "findIndex (\<lambda>it. url it (href ?e)) (comicConfigs exampleWorld) = Some 0"
    by (simp add: exampleWorld_def exampleConfig_def examplePage_def)
  have cf: "comicConfigs exampleWorld = [exampleConfig]"
    by (simp add: exampleWorld_def)
  have tt: "topText exampleConfig = None" "bottomText exampleConfig \<noteq> None"
    "name exampleConfig = ''Example''"
    by (simp_all add: exampleConfig_def)
  from defaults_fill_matched_config [OF call] rs fi
  have "comicConfigs (snd ?r) = (comicConfigs exampleWorld)[0 := defaultsConfig (comicConfigs exampleWorld ! 0)]"
    by blast
  with rs fi cf tt show ?thesis
    by (auto simp: defaultsConfig_def)
qed

text \<open>
  Claim C9 as stated says that no registered configuration is changed. The example
  configuration has no \<open>topText\<close>; after one call of \<open>processPage\<close> the registered
  object has one.
\<close>

theorem config_mutated_counterexample:
  "topText (comicConfigs exampleWorld ! 0) = None
   \<and> topText (comicConfigs (snd (processPage (examplePage ''comic/1'' ''1'' None) exampleWorld)) ! 0)
       \<noteq> None"
proof -
  have "Option.is_none (topText (comicConfigs exampleWorld ! 0))"
    by code_simp
  moreover have "\<not> Option.is_none
      (topText (comicConfigs (snd (processPage (examplePage ''comic/1'' ''1'' None) exampleWorld)) ! 0))"
    by code_simp
  ultimately show ?thesis
    by (simp add: Option.is_none_def)
qed

subsection \<open>Starting where no adapter matches\<close>

text \<open>
  Claim C4, as amended. When no registered configuration matches the location,
  \<open>startArchival\<close> logs the start, clears session storage and writes the fresh run
  state (the budget, no images); \<open>processPage\<close> then logs that no configuration was
  found and returns. No page is processed or cached and nothing navigates, but the
  run state stays in storage. (If storage refuses even that one item, the call ends
  with the exception, storage empty.)
\<close>

theorem start_without_adapter:
  assumes "\<forall>c \<in> set (comicConfigs w). \<not> url c (href e)"
  shows "(quota e [''archivalState'' \<mapsto>
                     State \<lparr>pageCount = json count, startPage = queryDigits (search e), images = []\<rparr>]
            \<longrightarrow> startArchival e count w =
                  (NoConfig,
                   w\<lparr>sessionStorage :=
                        [''archivalState'' \<mapsto>
                           State \<lparr>pageCount = json count, startPage = queryDigits (search e),
                                  images = []\<rparr>],
                      trace := trace w @
                        [Log (''Starting archival for '' @ show_jsnum count @ '' pages...''),
                         Clear,
                         SetItem ''archivalState''
                           (State \<lparr>pageCount = json count, startPage = queryDigits (search e),
                                   images = []\<rparr>),
                         Log ''Processing page...'',
                         Log ''Couldn't find a matching configuration for this page. Make sure the url regex is right.'']\<rparr>))
         \<and> (\<not> quota e [''archivalState'' \<mapsto>
                     State \<lparr>pageCount = json count, startPage = queryDigits (search e), images = []\<rparr>]
            \<longrightarrow> startArchival e count w =
                  (Threw QuotaExceededError,
                   w\<lparr>sessionStorage := Map.empty,
                      trace := trace w @
                        [Log (''Starting archival for '' @ show_jsnum count @ '' pages...''),
                         Clear]\<rparr>))"
proof -
  from assms have "findIndex (\<lambda>it. url it (href e)) (comicConfigs w) = None"
    by (simp add: findIndex_None)
  then show ?thesis
    by (simp add: startArchival_def processPage_def setItem_def readState_def clear_def
        consoleLog_def Let_def)
qed

theorem start_without_adapter_witness:
  "\<not> url exampleConfig (href (examplePage ''about'' [] None))
   \<and> fst (startArchival (examplePage ''about'' [] None) (Number 3) exampleWorld) = NoConfig
   \<and> trace (snd (startArchival (examplePage ''about'' [] None) (Number 3) exampleWorld)) =
        [Log ''Starting archival for 3 pages...'',
         Clear,
         SetItem ''archivalState'' (State \<lparr>pageCount = Number 3, startPage = None, images = []\<rparr>),
         Log ''Processing page...'',
         Log ''Couldn't find a matching configuration for this page. Make sure the url regex is right.'']"
proof -
  let ?e = "examplePage ''about'' [] None"
  have no: "\<forall>c \<in> set (comicConfigs exampleWorld). \<not> url c (href ?e)"
    by (simp add: exampleWorld_def exampleConfig_def examplePage_def)
  have sh: "show_jsnum (Number 3) = ''3''"
    by code_simp
  from start_without_adapter [OF no, of "Number 3"] sh show ?thesis
    by (simp add: exampleWorld_def exampleConfig_def examplePage_def)
qed

text \<open>
  Claim C4 as stated says that no run state is written. On the example site, a start
  on a page outside \<open>comic/\<close> leaves the run state in storage.
\<close>

theorem start_without_adapter_counterexample:
  "comicConfigs exampleWorld = [exampleConfig]
   \<and> \<not> url exampleConfig (href (examplePage ''about'' [] None))
   \<and> fst (startArchival (examplePage ''about'' [] None) (Number 3) exampleWorld) = NoConfig
   \<and> sessionStorage (snd (startArchival (examplePage ''about'' [] None) (Number 3) exampleWorld))
        ''archivalState''
       = Some (State \<lparr>pageCount = Number 3, startPage = None, images = []\<rparr>)"
  by (simp add: startArchival_def processPage_def setItem_def readState_def clear_def
      consoleLog_def Let_def exampleWorld_def exampleConfig_def examplePage_def)


subsection \<open>A failed archive assembly\<close>

lemma drainPage_evicts:
  assumes "drainPage f (acc, w) = Inr (acc', w')"
  shows "\<not> truthyItem (sessionStorage w' f)"
  using assms
  by (cases acc) (auto simp: drainPage_def split: if_splits sum.splits)

lemma drainPages_evicts:
  "drainPages fs (acc, w) = Inr (acc', w') \<Longrightarrow> k \<in> set fs \<Longrightarrow> \<not> truthyItem (sessionStorage w' k)"
proof (induction fs arbitrary: acc w)
  case Nil
  then show ?case by simp
next
  case (Cons f fs)
  from Cons.prems(1) obtain acc1 w1 where
    step: "drainPage f (acc, w) = Inr (acc1, w1)" and rest: "drainPages fs (acc1, w1) = Inr (acc', w')"
    by (auto split: sum.splits)
  show ?case
  proof (cases "k \<in> set fs")
    case True
    from Cons.IH [OF rest True] show ?thesis .
  next
    case False
    with Cons.prems(2) have k: "k = f" by simp
    from drainPages_effect [of fs acc1 w1 acc' w'] rest have "drained (set fs) w1 w'"
      by simp
    from drained_storage [OF this, of f] drainPage_evicts [OF step] k show ?thesis
      by auto
  qed
qed

text \<open>
  Claim C5, as amended. When \<open>generateCBZ\<close> ends without delivering the archive,
  every stored item whose key is not in \<open>images\<close> is unchanged, the run state among
  them (it is removed only after the download); and when the failure comes at or
  after the assembly of the zip (the promise rejects, or \<open>bookName\<close> throws), every
  page named in \<open>images\<close> has already been removed from storage by the drain loop.
\<close>

theorem failed_assembly_storage:
  assumes "generateCBZ e imgs config w = (r, w')" and "\<forall>n. r \<noteq> Delivered n"
  shows "(\<forall>k. k \<notin> set imgs \<longrightarrow> sessionStorage w' k = sessionStorage w k)
         \<and> (''archivalState'' \<notin> set imgs \<longrightarrow>
               sessionStorage w' ''archivalState'' = sessionStorage w ''archivalState'')
         \<and> (r = AssemblyRejected \<or> (\<exists>er. r = NameThrew er) \<longrightarrow>
               (\<forall>k \<in> set imgs. \<not> truthyItem (sessionStorage w' k)))"
proof -
  from generateCBZ_drained [OF assms(1)] assms(2) have d: "drained (set imgs) w w'"
    by simp
  have keep: "sessionStorage w' k = sessionStorage w k" if "k \<notin> set imgs" for k
    using drained_storage [OF d, of k] that by simp
  have gone: "\<not> truthyItem (sessionStorage w' k)"
    if late: "r = AssemblyRejected \<or> (\<exists>er. r = NameThrew er)" and k: "k \<in> set imgs" for k
  proof (cases "drainPages imgs ((None, None, []), consoleLog ''Generating .cbz file...'' w)")
    case (Inl a)
    with assms(1) late show ?thesis
      by (auto simp: generateCBZ_def split: prod.splits)
  next
    case (Inr b)
    obtain acc w2 where b: "b = (acc, w2)" by (cases b)
    from assms(1) Inr b late have "w' = w2"
      by (auto simp: generateCBZ_def Let_def split: prod.splits option.splits sum.splits)
    with drainPages_evicts [OF Inr [unfolded b] k] show ?thesis by simp
  qed
  from keep gone show ?thesis by blast
qed

theorem failed_assembly_storage_witness:
  "fst (generateCBZ (examplePage ''comic/2'' ''2'' None\<lparr>generateAsync := (\<lambda>files. None)\<rparr>) [''1'']
          exampleConfig
          (exampleWorld\<lparr>sessionStorage := [''1'' \<mapsto> Page ''/9j/'', ''2'' \<mapsto> Page ''/9j/'']\<rparr>))
     = AssemblyRejected
   \<and> sessionStorage
        (snd (generateCBZ (examplePage ''comic/2'' ''2'' None\<lparr>generateAsync := (\<lambda>files. None)\<rparr>) [''1'']
                exampleConfig
                (exampleWorld\<lparr>sessionStorage := [''1'' \<mapsto> Page ''/9j/'', ''2'' \<mapsto> Page ''/9j/'']\<rparr>)))
        ''2''
       = Some (Page ''/9j/'')
   \<and> \<not> truthyItem
        (sessionStorage
           (snd (generateCBZ (examplePage ''comic/2'' ''2'' None\<lparr>generateAsync := (\<lambda>files. None)\<rparr>) [''1'']
                   exampleConfig
                   (exampleWorld\<lparr>sessionStorage := [''1'' \<mapsto> Page ''/9j/'', ''2'' \<mapsto> Page ''/9j/'']\<rparr>)))
           ''1'')"
proof -
  let ?e = "examplePage ''comic/2'' ''2'' None\<lparr>generateAsync := (\<lambda>files. None)\<rparr>"
  let ?w = "exampleWorld\<lparr>sessionStorage := [''1'' \<mapsto> Page ''/9j/'', ''2'' \<mapsto> Page ''/9j/'']\<rparr>"
  let ?g = "generateCBZ ?e [''1''] exampleConfig ?w"
  have r: "fst ?g = AssemblyRejected"
    by code_simp
  then have call: "?g = (AssemblyRejected, snd ?g)"
    by (simp add: prod_eq_iff)
  have nd: "\<forall>n. AssemblyRejected \<noteq> Delivered n" by simp
  from failed_assembly_storage [OF call nd] r show ?thesis
    by simp
qed

text \<open>
  Claim C5 as stated says that the cached pages survive a failed assembly. With a zip
  library whose promise rejects, the page that was cached before the build is gone
  after it.
\<close>

theorem failed_assembly_counterexample:
  "fst (generateCBZ (examplePage ''comic/2'' ''2'' None\<lparr>generateAsync := (\<lambda>files. None)\<rparr>) [''1'']
          exampleConfig (exampleWorld\<lparr>sessionStorage := [''1'' \<mapsto> Page ''/9j/'']\<rparr>))
     = AssemblyRejected
   \<and> sessionStorage (exampleWorld\<lparr>sessionStorage := [''1'' \<mapsto> Page ''/9j/'']\<rparr>) ''1''
       = Some (Page ''/9j/'')
   \<and> sessionStorage
        (snd (generateCBZ (examplePage ''comic/2'' ''2'' None\<lparr>generateAsync := (\<lambda>files. None)\<rparr>) [''1'']
                exampleConfig (exampleWorld\<lparr>sessionStorage := [''1'' \<mapsto> Page ''/9j/'']\<rparr>)))
        ''1''
       = None"
  by code_simp

subsection \<open>Text wrapping\<close>

lemma greedyPack_nonempty: "greedyPack m u line ws \<noteq> []"
  by (induction ws arbitrary: line) auto

lemma wrapWords_greedyPack:
  "wrapWords m u ws (wl, line) =
     (wl @ butlast (greedyPack m u line ws), last (greedyPack m u line ws))"
proof (induction ws arbitrary: wl line)
  case Nil
  then show ?case by simp
next
  case (Cons w ws)
  show ?case
  proof (cases "line = []")
    case True
    then show ?thesis
      by (simp add: wrapWord_def Cons.IH)
  next
    case False
    show ?thesis
    proof (cases "m (line @ '' '' @ w) \<le> of_int u")
      case True
      with False show ?thesis
        by (simp add: wrapWord_def Cons.IH not_less [symmetric])
    next
      case fits: False
      with False show ?thesis
        by (simp add: wrapWord_def Cons.IH greedyPack_nonempty not_le)
    qed
  qed
qed

lemma wrapLines_greedyPack:
  "wrapLines m u paragraphs wl =
     wl @ concat (map (\<lambda>paragraph. greedyPack m u [] (split_on (CHR '' '') paragraph)) paragraphs)"
  by (induction paragraphs arbitrary: wl)
    (simp_all add: wrapWords_greedyPack greedyPack_nonempty)

lemma wrappedLinesOf_specWrap:
  "wrappedLinesOf textWidth maxWidth p txt =
     specWrap (textWidth (fullFont p)) (maxWidth - paddingLeft p - paddingRight p) txt"
  by (simp add: wrappedLinesOf_def specWrap_def wrapLines_greedyPack)

text \<open>
  Claim C7. For every text, width and resolved block, \<open>createWrappedTextCanvas\<close>
  returns the total height \<open>lineCount * lineHeight + (lineHeight - fontSize) +
  paddingTop + paddingBottom\<close>, where the lines are those of the specification's
  rule: the text split at line breaks, each paragraph packed greedily against
  \<open>maxWidth - paddingLeft - paddingRight\<close>. The canvas is assigned that height and
  the given width, which the element reflects, and gets one \<open>fillText\<close> per line.
\<close>

theorem wrap_height:
  assumes "text' p = Some txt"
  shows "createWrappedTextCanvas textWidth maxWidth p =
           Inr (Canvas (reflectSize 300 maxWidth)
                  (reflectSize 150
                     (specHeight p
                        (length (specWrap (textWidth (fullFont p))
                                   (maxWidth - paddingLeft p - paddingRight p) txt))))
                  (fillLines p (maxWidth - paddingLeft p - paddingRight p)
                     (specWrap (textWidth (fullFont p))
                        (maxWidth - paddingLeft p - paddingRight p) txt)
                     (paddingTop p + lineHeight p)),
                specHeight p
                  (length (specWrap (textWidth (fullFont p))
                             (maxWidth - paddingLeft p - paddingRight p) txt)))"
  using assms
  by (simp add: createWrappedTextCanvas_def Let_def wrappedLinesOf_specWrap specHeight_def
      add_diff_eq)

theorem wrap_height_witness:
  "text' (defaultsText [Text (TStr ''hello world foo''), FontSize 10]) = Some ''hello world foo''
   \<and> map_sum id snd
        (createWrappedTextCanvas (\<lambda>font s. 8 * real (length s)) 80
           (defaultsText [Text (TStr ''hello world foo''), FontSize 10]))
       = Inr 80"
proof -
  let ?p = "defaultsText [Text (TStr ''hello world foo''), FontSize 10]"
  let ?m = "\<lambda>font s. 8 * real (length s) :: real"
  have t: "text' ?p = Some ''hello world foo''"
    by (simp add: defaultsText_def)
  have h: "specHeight ?p (length (specWrap (?m (fullFont ?p)) (80 - paddingLeft ?p - paddingRight ?p)
             ''hello world foo'')) = 80"
    by code_simp
  from wrap_height [OF t, of ?m 80] h t show ?thesis
    by simp
qed

subsection \<open>Compositing\<close>







lemma drawCanvases_noPixels:
  "\<exists>c \<in> set cs. noPixels c \<Longrightarrow> drawCanvases cs st = Inl InvalidStateError"
  by (induction cs arbitrary: st) auto






end
